theory Spec2Isabelle
  imports Complex_Main "HOL-Library.AList"
begin

section \<open>Strings of the converter\<close>

text \<open>
  File names and media types are modelled as ASCII strings: \<open>toLowerCase\<close> maps the
  letters A to Z to a to z and leaves every other character alone.
\<close>

definition lowerChar :: "char \<Rightarrow> char" where
  "lowerChar c =
     (case map_of (zip ''ABCDEFGHIJKLMNOPQRSTUVWXYZ'' ''abcdefghijklmnopqrstuvwxyz'') c of
        Some d \<Rightarrow> d
      | None \<Rightarrow> c)"

definition toLowerCase :: "string \<Rightarrow> string" where
  "toLowerCase s = map lowerChar s"

definition startsWith :: "string \<Rightarrow> string \<Rightarrow> bool" where
  "startsWith s p = (take (length p) s = p)"

definition endsWith :: "string \<Rightarrow> string \<Rightarrow> bool" where
  "endsWith s x = (length x \<le> length s \<and> drop (length s - length x) s = x)"

text \<open>\<open>name.lastIndexOf(c)\<close>: the index of the last occurrence, or -1.\<close>

fun lastIndexOf :: "string \<Rightarrow> char \<Rightarrow> int" where
  "lastIndexOf [] c = - 1"
| "lastIndexOf (x # xs) c =
     (let r = lastIndexOf xs c in if 0 \<le> r then r + 1 else if x = c then 0 else - 1)"

text \<open>\<open>function replaceExt(name, ext)\<close> (App.tsx, line 33).\<close>

definition replaceExt :: "string \<Rightarrow> string \<Rightarrow> string" where
  "replaceExt name ext =
     (let i = lastIndexOf name (CHR ''.'') in (if 0 \<le> i then take (nat i) name else name) @ ext)"

section \<open>Files and the type classifier\<close>

record File =
  fname :: string
  ftype :: string
  webkitRelativePath :: string

definition IMAGE_TARGETS :: "string list" where
  "IMAGE_TARGETS = [''image/jpeg'', ''image/png'', ''image/webp'']"

definition AUDIO_TARGETS :: "string list" where
  "AUDIO_TARGETS = [''audio/mpeg'', ''audio/aac'', ''audio/ogg'', ''audio/opus'', ''audio/wav'']"

definition VIDEO_TARGETS :: "string list" where
  "VIDEO_TARGETS = [''video/webm'']"

text \<open>The regular expressions \<open>/\.(mp3|aac|m4a|wav|ogg|opus|flac)$/i\<close> and
  \<open>/\.(mp4|mov|mkv|webm)$/i\<close>, tested on the lower-cased name.\<close>

definition audioExt :: "string \<Rightarrow> bool" where
  "audioExt n = (\<exists>x \<in> set [''.mp3'', ''.aac'', ''.m4a'', ''.wav'', ''.ogg'', ''.opus'', ''.flac''].
                   endsWith (toLowerCase n) x)"

definition videoExt :: "string \<Rightarrow> bool" where
  "videoExt n = (\<exists>x \<in> set [''.mp4'', ''.mov'', ''.mkv'', ''.webm'']. endsWith (toLowerCase n) x)"

definition isHeic :: "File \<Rightarrow> bool" where
  "isHeic f = (let n = toLowerCase (fname f) in
     ftype f = ''image/heic'' \<or> ftype f = ''image/heif'' \<or> endsWith n ''.heic'' \<or> endsWith n ''.heif'')"

definition isAudio :: "File \<Rightarrow> bool" where
  "isAudio f = (let n = toLowerCase (fname f) in startsWith (ftype f) ''audio/'' \<or> audioExt n)"

definition isVideo :: "File \<Rightarrow> bool" where
  "isVideo f = (let n = toLowerCase (fname f) in startsWith (ftype f) ''video/'' \<or> videoExt n)"

definition isPDF :: "File \<Rightarrow> bool" where
  "isPDF f = (ftype f = ''application/pdf'' \<or> endsWith (toLowerCase (fname f)) ''.pdf'')"

text \<open>\<open>function inferTargets(type, name)\<close> (App.tsx, lines 35 to 43).\<close>

definition inferTargets :: "string \<Rightarrow> string \<Rightarrow> string list" where
  "inferTargets type name =
     (let n = toLowerCase name in
      if endsWith n ''.heic'' \<or> endsWith n ''.heif'' then [''image/jpeg'']
      else if startsWith type ''image/'' then IMAGE_TARGETS
      else if startsWith type ''audio/'' \<or> audioExt n then AUDIO_TARGETS
      else if startsWith type ''video/'' \<or> videoExt n then VIDEO_TARGETS
      else if type = ''application/pdf'' \<or> endsWith n ''.pdf'' then [''application/pdf'']
      else [])"

section \<open>Numbers\<close>

text \<open>
  \<open>String(n)\<close> and the template literal \<open>${n}\<close> of an integral number: its decimal digits,
  as JavaScript prints every integer of magnitude below \<open>10^21\<close>.
\<close>

definition digitChar :: "nat \<Rightarrow> char" where
  "digitChar d = ''0123456789'' ! d"

fun digitsOf :: "nat \<Rightarrow> string" where
  "digitsOf n = (if n < 10 then [digitChar n] else digitsOf (n div 10) @ [digitChar (n mod 10)])"

declare digitsOf.simps [simp del]

definition numString :: "int \<Rightarrow> string" where
  "numString n = (if n < 0 then CHR ''-'' # digitsOf (nat (- n)) else digitsOf (nat n))"

text \<open>
  JavaScript numbers are binary64 values. \<open>bin64\<close> rounds a rational to the nearest
  value with a 53-bit significand, ties to the even significand; it is the rounding of
  every arithmetic operation on values in the normal range (magnitudes from \<open>2^-1022\<close>
  to below \<open>2^1024\<close>), where all numbers of this program lie. \<open>binade x\<close> is the
  power of two with \<open>binade x \<le> x < 2 * binade x\<close>.
\<close>

function binadeUp :: "rat \<Rightarrow> rat" where
  "binadeUp x = (if x < 2 then 1 else 2 * binadeUp (x / 2))"
  by pat_completeness auto
termination
proof (relation "measure (\<lambda>x. nat \<lfloor>x\<rfloor>)")
  show "wf (measure (\<lambda>x::rat. nat \<lfloor>x\<rfloor>))" by simp
next
  fix x :: rat
  assume "\<not> x < 2"
  then have "2 \<le> x" by simp
  then have "\<lfloor>x / 2\<rfloor> < \<lfloor>x\<rfloor>" and "0 < \<lfloor>x\<rfloor>"
    by (simp_all add: floor_less_iff) linarith+
  then show "(x / 2, x) \<in> measure (\<lambda>x. nat \<lfloor>x\<rfloor>)" by simp
qed

function binadeDown :: "rat \<Rightarrow> rat" where
  "binadeDown x = (if x \<le> 0 \<or> 1 \<le> 2 * x then 1 / 2 else binadeDown (2 * x) / 2)"
  by pat_completeness auto
termination
proof (relation "measure (\<lambda>x. nat \<lfloor>1 / x\<rfloor>)")
  show "wf (measure (\<lambda>x::rat. nat \<lfloor>1 / x\<rfloor>))" by simp
next
  fix x :: rat
  assume "\<not> (x \<le> 0 \<or> 1 \<le> 2 * x)"
  then have x: "0 < x" "2 * x < 1" by simp_all
  then have "2 < 1 / x" by (simp add: field_simps)
  then have "\<lfloor>(1 / x) / 2\<rfloor> < \<lfloor>1 / x\<rfloor>" and "0 < \<lfloor>1 / x\<rfloor>"
    by (simp_all add: floor_less_iff) linarith+
  then show "(2 * x, x) \<in> measure (\<lambda>x. nat \<lfloor>1 / x\<rfloor>)" by (simp add: field_simps)
qed

declare binadeUp.simps [simp del] binadeDown.simps [simp del]

definition binade :: "rat \<Rightarrow> rat" where
  "binade x = (if 1 \<le> x then binadeUp x else binadeDown x)"

definition roundHalfEven :: "rat \<Rightarrow> int" where
  "roundHalfEven x =
     (let f = \<lfloor>x\<rfloor>; r = x - of_int f in
      if r < 1 / 2 then f else if 1 / 2 < r then f + 1 else if even f then f else f + 1)"

definition bin64 :: "rat \<Rightarrow> rat" where
  "bin64 x =
     (if x = 0 then 0
      else let a = \<bar>x\<bar>; u = binade a / 2 ^ 52 in sgn x * (of_int (roundHalfEven (a / u)) * u))"

text \<open>\<open>Math.round\<close>: the nearest integer, a tie going up.\<close>

definition Math_round :: "rat \<Rightarrow> int" where
  "Math_round x = \<lfloor>x + 1 / 2\<rfloor>"

text \<open>\<open>Math.round(done / work.length * 100)\<close> (App.tsx, line 147).\<close>

definition percent :: "nat \<Rightarrow> nat \<Rightarrow> int" where
  "percent done n = Math_round (bin64 (bin64 (of_nat done / of_nat n) * 100))"

section \<open>Thrown values, blobs and queue items\<close>

text \<open>
  A thrown value, as the \<open>catch\<close> of \<open>convertAll\<close> reads it: its \<open>message\<close> property
  (absent on a value that is not an \<open>Error\<close>) and its \<open>String(err)\<close>.
\<close>

datatype thrown = Thrown (message: "string option") (asString: string)

text \<open>\<open>new Error(msg)\<close>; \<open>String\<close> of it is \<open>Error: msg\<close>, or \<open>Error\<close> for an empty message.\<close>

definition newError :: "string \<Rightarrow> thrown" where
  "newError msg = Thrown (Some msg) (if msg = [] then ''Error'' else ''Error: '' @ msg)"

text \<open>\<open>err?.message || String(err)\<close> (App.tsx, line 146).\<close>

definition errText :: "thrown \<Rightarrow> string" where
  "errText e = (case message e of Some m \<Rightarrow> if m \<noteq> [] then m else asString e | None \<Rightarrow> asString e)"

type_synonym bytes = "nat list"

record Blob =
  blobData :: bytes
  blobType :: string

datatype ItemStatus = Pending | Converting | Done | Error

datatype AudioMode = CBR | VBR

record AudioOpts =
  mode :: AudioMode
  kbps :: int
  vbrq :: int
  rate :: int
  ch :: int

datatype PdfAction = PdfNone | PdfSplit

record QItem =
  itemId :: string
  selected :: bool
  itemFile :: File
  target :: string
  status :: ItemStatus
  outBlob :: "Blob option"
  errorMsg :: "string option"
  audioOpts :: AudioOpts
  imageQ :: int
  videoCrf :: int
  pdfAction :: PdfAction

section \<open>The environment: codec engines, browser and clock\<close>

text \<open>
  The engines and the browser are outside the program. Each of their operations is a
  function of an external state \<open>'w\<close>, returning the new external state and either a
  result or the value it throws; nothing is assumed about them. The setters of the
  component state, \<open>setProgress\<close> and \<open>setItems\<close>, hand a value to React, which is
  outside too: \<open>renderProgress\<close> and \<open>renderItems\<close> are what a published value does
  to the external state, so that what happens later may depend on it. \<open>PdfDoc\<close> is a loaded
  document, a list of pages; \<open>HeicResult\<close> is what \<open>heic2any\<close> resolves to, a \<open>Blob\<close> or
  something else, given by the bytes \<open>new Blob([res])\<close> makes of it.
\<close>

type_synonym PdfDoc = "bytes list"

datatype HeicResult = HeicBlob Blob | HeicOther bytes

record 'w Env =
  fileArrayBuffer :: "File \<Rightarrow> 'w \<Rightarrow> (thrown + bytes) \<times> 'w"
  heic2any :: "File \<Rightarrow> 'w \<Rightarrow> (thrown + HeicResult) \<times> 'w"
  createImageBitmap :: "File \<Rightarrow> 'w \<Rightarrow> (thrown + bytes) \<times> 'w"
  imageLoad :: "File \<Rightarrow> 'w \<Rightarrow> (thrown + unit) \<times> 'w"
  canvasToBlob :: "bytes \<Rightarrow> string \<Rightarrow> rat \<Rightarrow> 'w \<Rightarrow> (thrown + Blob option) \<times> 'w"
  ffLoad :: "'w \<Rightarrow> (thrown + unit) \<times> 'w"
  fetchFile :: "File \<Rightarrow> 'w \<Rightarrow> (thrown + bytes) \<times> 'w"
  ffWriteFile :: "string \<Rightarrow> bytes \<Rightarrow> 'w \<Rightarrow> (thrown + unit) \<times> 'w"
  ffExec :: "string list \<Rightarrow> 'w \<Rightarrow> (thrown + unit) \<times> 'w"
  ffReadFile :: "string \<Rightarrow> 'w \<Rightarrow> (thrown + bytes) \<times> 'w"
  ffUnlink :: "string \<Rightarrow> 'w \<Rightarrow> (thrown + unit) \<times> 'w"
  pdfLoad :: "bytes \<Rightarrow> 'w \<Rightarrow> (thrown + PdfDoc) \<times> 'w"
  pdfSave :: "PdfDoc \<Rightarrow> 'w \<Rightarrow> (thrown + bytes) \<times> 'w"
  mathRandom36 :: "'w \<Rightarrow> string \<times> 'w"
  dateNow :: "'w \<Rightarrow> int \<times> 'w"
  renderProgress :: "int \<Rightarrow> 'w \<Rightarrow> 'w"
  renderItems :: "QItem list \<Rightarrow> 'w \<Rightarrow> 'w"

text \<open>
  What the component publishes: the calls of \<open>setProgress\<close> and \<open>setItems\<close>, in order.
\<close>

datatype Published = SetProgress int | SetItems "QItem list"

text \<open>
  The state a run threads: the module variable \<open>_ff\<close> (set or null), the argument lists
  of the calls of \<open>core.exec\<close> so far, what was published so far, and the external state.
\<close>

record 'w World =
  ffSet :: bool
  execLog :: "string list list"
  uiLog :: "Published list"
  outside :: "'w"

type_synonym ('w, 'a) action = "'w World \<Rightarrow> (thrown + 'a) \<times> 'w World"

definition returnT :: "'a \<Rightarrow> ('w, 'a) action" where
  "returnT a s = (Inr a, s)"

definition throwT :: "thrown \<Rightarrow> ('w, 'a) action" where
  "throwT e s = (Inl e, s)"

text \<open>\<open>await m\<close>, then \<open>f\<close> of its value; a throw of \<open>m\<close> skips \<open>f\<close>.\<close>

definition bindT :: "('w, 'a) action \<Rightarrow> ('a \<Rightarrow> ('w, 'b) action) \<Rightarrow> ('w, 'b) action" where
  "bindT m f s = (case m s of (Inl e, s') \<Rightarrow> (Inl e, s') | (Inr a, s') \<Rightarrow> f a s')"

text \<open>\<open>try { m } catch {}\<close>: a throw of \<open>m\<close> is swallowed.\<close>

definition swallowT :: "('w, unit) action \<Rightarrow> ('w, unit) action" where
  "swallowT m s = (case m s of (Inl e, s') \<Rightarrow> (Inr (), s') | (Inr a, s') \<Rightarrow> (Inr (), s'))"

text \<open>A call of an operation of the environment.\<close>

definition call :: "('w \<Rightarrow> (thrown + 'a) \<times> 'w) \<Rightarrow> ('w, 'a) action" where
  "call op s = (case op (outside s) of (r, w) \<Rightarrow> (r, s\<lparr>outside := w\<rparr>))"

definition callPure :: "('w \<Rightarrow> 'a \<times> 'w) \<Rightarrow> ('w, 'a) action" where
  "callPure op s = (case op (outside s) of (a, w) \<Rightarrow> (Inr a, s\<lparr>outside := w\<rparr>))"

text \<open>\<open>core.exec(args)\<close>, with the call recorded.\<close>

definition coreExec :: "'w Env \<Rightarrow> string list \<Rightarrow> ('w, unit) action" where
  "coreExec env args s = call (ffExec env args) (s\<lparr>execLog := execLog s @ [args]\<rparr>)"

definition setProgress :: "'w Env \<Rightarrow> int \<Rightarrow> 'w World \<Rightarrow> 'w World" where
  "setProgress env v s =
     s\<lparr>uiLog := uiLog s @ [SetProgress v], outside := renderProgress env v (outside s)\<rparr>"

definition setItems :: "'w Env \<Rightarrow> QItem list \<Rightarrow> 'w World \<Rightarrow> 'w World" where
  "setItems env xs s =
     s\<lparr>uiLog := uiLog s @ [SetItems xs], outside := renderItems env xs (outside s)\<rparr>"

section \<open>The converters\<close>

text \<open>
  \<open>async function getFF()\<close> (App.tsx, line 26): \<open>_ff\<close> is assigned before \<open>load\<close> is
  awaited, so it stays set when \<open>load\<close> throws.
\<close>

definition getFF :: "'w Env \<Rightarrow> ('w, unit) action" where
  "getFF env s = (if \<not> ffSet s then call (ffLoad env) (s\<lparr>ffSet := True\<rparr>) else returnT () s)"

text \<open>\<open>async function loadImageBitmap(file)\<close> (App.tsx, lines 45 to 50).\<close>

definition loadImageBitmap :: "'w Env \<Rightarrow> File \<Rightarrow> ('w, bytes) action" where
  "loadImageBitmap env f s =
     (case call (createImageBitmap env f) s of
        (Inr bmp, s') \<Rightarrow> (Inr bmp, s')
      | (Inl e, s') \<Rightarrow> bindT (call (imageLoad env f)) (\<lambda>_. call (createImageBitmap env f)) s')"

text \<open>\<open>async function convertImage(file, target, qPercent)\<close> (App.tsx, lines 52 to 60).\<close>

definition convertImage :: "'w Env \<Rightarrow> File \<Rightarrow> string \<Rightarrow> int \<Rightarrow> ('w, Blob) action" where
  "convertImage env f tgt qPercent =
     bindT (loadImageBitmap env f) (\<lambda>bmp.
       let q = bin64 (of_int (min 100 (max 1 qPercent)) / 100) in
       bindT (call (canvasToBlob env bmp tgt q)) (\<lambda>b.
         case b of Some blob \<Rightarrow> returnT blob | None \<Rightarrow> throwT (newError ''toBlob failed'')))"

text \<open>
  The argument list and the output name \<open>convertAudio\<close> chooses for a target
  (App.tsx, lines 66 to 72); an unsupported target throws.
\<close>

definition audioCommand :: "string \<Rightarrow> string \<Rightarrow> AudioOpts \<Rightarrow> thrown + string list \<times> string" where
  "audioCommand inName tgt opts =
     (let base = [''-i'', inName, ''-ar'', numString (rate opts), ''-ac'', numString (ch opts)] in
      if tgt = ''audio/mpeg'' then
        (if mode opts = VBR
         then Inr (base @ [''-c:a'', ''libmp3lame'', ''-q:a'', numString (vbrq opts), ''out.mp3''], ''out.mp3'')
         else Inr (base @ [''-c:a'', ''libmp3lame'', ''-b:a'', numString (kbps opts) @ ''k'', ''out.mp3''], ''out.mp3''))
      else if tgt = ''audio/aac'' then
        Inr (base @ [''-c:a'', ''aac'', ''-b:a'', numString (kbps opts) @ ''k'', ''-f'', ''mp4'',
                     ''-movflags'', ''+faststart'', ''out.m4a''], ''out.m4a'')
      else if tgt = ''audio/ogg'' \<or> tgt = ''audio/opus'' then
        (let out = (if tgt = ''audio/opus'' then ''out.opus'' else ''out.ogg'') in
         Inr (base @ [''-c:a'', ''libopus'', ''-b:a'', numString (kbps opts) @ ''k'', out], out))
      else if tgt = ''audio/wav'' then
        Inr (base @ [''-c:a'', ''pcm_s16le'', ''out.wav''], ''out.wav'')
      else Inl (newError ''Unsupported audio target''))"

text \<open>\<open>async function convertAudio(file, target, opts)\<close> (App.tsx, lines 62 to 76).\<close>

definition convertAudio :: "'w Env \<Rightarrow> File \<Rightarrow> string \<Rightarrow> AudioOpts \<Rightarrow> ('w, Blob) action" where
  "convertAudio env f tgt opts =
     bindT (getFF env) (\<lambda>_.
     bindT (callPure (mathRandom36 env)) (\<lambda>r.
       let inName = ''in_'' @ drop 2 r in
       bindT (call (fetchFile env f)) (\<lambda>input.
       bindT (call (ffWriteFile env inName input)) (\<lambda>_.
         case audioCommand inName tgt opts of
           Inl e \<Rightarrow> throwT e
         | Inr (args, out) \<Rightarrow>
             bindT (coreExec env args) (\<lambda>_.
             bindT (call (ffReadFile env out)) (\<lambda>data.
             bindT (swallowT (bindT (call (ffUnlink env inName)) (\<lambda>_. call (ffUnlink env out)))) (\<lambda>_.
               returnT \<lparr>blobData = data, blobType = tgt\<rparr>)))))))"

text \<open>\<open>async function convertVideoToWebM(file, crf)\<close> (App.tsx, lines 78 to 87).\<close>

definition convertVideoToWebM :: "'w Env \<Rightarrow> File \<Rightarrow> int \<Rightarrow> ('w, Blob) action" where
  "convertVideoToWebM env f crf =
     bindT (getFF env) (\<lambda>_.
     bindT (callPure (mathRandom36 env)) (\<lambda>r.
       let inName = ''v_in_'' @ drop 2 r; out = ''v_out.webm'' in
       bindT (call (fetchFile env f)) (\<lambda>input.
       bindT (call (ffWriteFile env inName input)) (\<lambda>_.
       bindT (coreExec env [''-i'', inName, ''-c:v'', ''libvpx-vp9'', ''-b:v'', ''0'', ''-crf'',
                            numString crf, ''-c:a'', ''libopus'', out]) (\<lambda>_.
       bindT (call (ffReadFile env out)) (\<lambda>data.
       bindT (swallowT (bindT (call (ffUnlink env inName)) (\<lambda>_. call (ffUnlink env out)))) (\<lambda>_.
         returnT \<lparr>blobData = data, blobType = ''video/webm''\<rparr>)))))))"

section \<open>The queue: addFiles\<close>

text \<open>
  \<open>addFiles\<close> (App.tsx, lines 96 to 104): one item per file, appended to the queue. The
  identifier is built from the clock, the index in the list and six characters of a
  random number printed in base 36.
\<close>

definition defaultTarget :: "File \<Rightarrow> string" where
  "defaultTarget f = (case inferTargets (ftype f) (fname f) of [] \<Rightarrow> ''image/webp'' | t # ts \<Rightarrow> t)"

definition newItem :: "string \<Rightarrow> File \<Rightarrow> QItem" where
  "newItem i f =
     \<lparr>itemId = i, selected = True, itemFile = f, target = defaultTarget f, status = Pending,
      outBlob = None, errorMsg = None,
      audioOpts = \<lparr>mode = CBR, kbps = 192, vbrq = 2, rate = 44100, ch = 2\<rparr>,
      imageQ = 90, videoCrf = 33, pdfAction = PdfNone\<rparr>"

fun mapFiles :: "'w Env \<Rightarrow> File list \<Rightarrow> nat \<Rightarrow> 'w \<Rightarrow> QItem list \<times> 'w" where
  "mapFiles env [] idx w = ([], w)"
| "mapFiles env (f # fs) idx w =
     (case dateNow env w of (now, w1) \<Rightarrow>
      case mathRandom36 env w1 of (r, w2) \<Rightarrow>
      case mapFiles env fs (idx + 1) w2 of (rest, w3) \<Rightarrow>
        (newItem (numString now @ ''-'' @ numString (int idx) @ ''-'' @ take 6 (drop 2 r)) f # rest, w3))"

definition addFiles :: "'w Env \<Rightarrow> File list \<Rightarrow> QItem list \<Rightarrow> 'w \<Rightarrow> QItem list \<times> 'w" where
  "addFiles env files prev w = (case mapFiles env files 0 w of (mapped, w') \<Rightarrow> (prev @ mapped, w'))"

section \<open>The batch orchestrator: convertAll\<close>

text \<open>\<open>next.findIndex(p)\<close>: the first index whose element satisfies \<open>p\<close>, or -1.\<close>

fun findIndex :: "('a \<Rightarrow> bool) \<Rightarrow> 'a list \<Rightarrow> int" where
  "findIndex p [] = - 1"
| "findIndex p (x # xs) = (if p x then 0 else let r = findIndex p xs in if r < 0 then - 1 else r + 1)"

text \<open>
  The body of the \<open>try\<close> (App.tsx, lines 122 to 145) for the item \<open>it\<close> of the snapshot,
  writing to \<open>next[idx]\<close>, here \<open>tgt\<close>: the result is the new \<open>next[idx]\<close>, or the thrown
  value. Every branch writes only after its last \<open>await\<close>, so a throw leaves \<open>next[idx]\<close>
  as it was.
\<close>

definition convertBody :: "'w Env \<Rightarrow> QItem \<Rightarrow> QItem \<Rightarrow> ('w, QItem) action" where
  "convertBody env it tgt =
     (if isPDF (itemFile it) then
        (if pdfAction it = PdfSplit then returnT (tgt\<lparr>status := Done\<rparr>)
         else bindT (call (fileArrayBuffer env (itemFile it))) (\<lambda>buf.
                returnT (tgt\<lparr>outBlob := Some \<lparr>blobData = buf, blobType = ''application/pdf''\<rparr>,
                              status := Done\<rparr>)))
      else if isHeic (itemFile it) then
        bindT (call (heic2any env (itemFile it))) (\<lambda>res.
          let out = (case res of HeicBlob b \<Rightarrow> b
                     | HeicOther d \<Rightarrow> \<lparr>blobData = d, blobType = ''image/jpeg''\<rparr>) in
          returnT (tgt\<lparr>target := ''image/jpeg'', outBlob := Some out, status := Done\<rparr>))
      else if startsWith (ftype (itemFile it)) ''image/'' then
        bindT (convertImage env (itemFile it) (target it) (imageQ it)) (\<lambda>out.
          returnT (tgt\<lparr>outBlob := Some out, status := Done\<rparr>))
      else if isAudio (itemFile it) then
        bindT (convertAudio env (itemFile it) (target it) (audioOpts it)) (\<lambda>out.
          returnT (tgt\<lparr>outBlob := Some out, status := Done\<rparr>))
      else if isVideo (itemFile it) then
        bindT (convertVideoToWebM env (itemFile it) (videoCrf it)) (\<lambda>out.
          returnT (tgt\<lparr>target := ''video/webm'', outBlob := Some out, status := Done\<rparr>))
      else throwT (newError ''Unsupported type''))"

text \<open>
  The snapshot \<open>work = next.filter(it => it.selected)\<close> holds the selected objects of
  \<open>next\<close> themselves; it is modelled by their positions in \<open>next\<close>.
\<close>

definition selectedPositions :: "QItem list \<Rightarrow> nat list" where
  "selectedPositions xs = filter (\<lambda>p. selected (xs ! p)) [0..<length xs]"

text \<open>
  What \<open>next[idx]\<close> is after the \<open>try\<close> and its \<open>catch\<close> (App.tsx, line 146): the item
  the body wrote, or the item as it was with status \<open>error\<close> and the message of the
  thrown value.
\<close>

definition settle :: "QItem \<Rightarrow> thrown + QItem \<Rightarrow> QItem" where
  "settle tgt r = (case r of Inr m \<Rightarrow> m | Inl e \<Rightarrow> tgt\<lparr>status := Error, errorMsg := Some (errText e)\<rparr>)"

text \<open>
  The loop of \<open>convertAll\<close> (App.tsx, lines 117 to 148), over the remaining positions
  of the snapshot. \<open>next[idx]\<close> with \<open>idx = -1\<close> is \<open>undefined\<close>, and the write to its
  \<open>status\<close>, outside the \<open>try\<close>, would throw a \<open>TypeError\<close> and end the run.
\<close>

fun convertLoop ::
  "'w Env \<Rightarrow> nat list \<Rightarrow> nat \<Rightarrow> nat \<Rightarrow> QItem list \<Rightarrow> 'w World \<Rightarrow> (thrown + QItem list) \<times> 'w World" where
  "convertLoop env [] done n next s = (Inr next, s)"
| "convertLoop env (p # work) done n next s =
     (let idx = findIndex (\<lambda>m. itemId m = itemId (next ! p)) next in
      if idx < 0 then (Inl (Thrown (Some ''Cannot set properties of undefined'') ''TypeError''), s)
      else
        let i = nat idx;
            next1 = next[i := (next ! i)\<lparr>status := Converting\<rparr>];
            s1 = setItems env next1 s
        in case convertBody env (next1 ! p) (next1 ! i) s1 of (r, s2) \<Rightarrow>
          let next2 = next1[i := settle (next1 ! i) r];
              s3 = setItems env next2 (setProgress env (percent (done + 1) n) s2)
          in convertLoop env work (done + 1) n next2 s3)"

text \<open>\<open>convertAll\<close> (App.tsx, lines 114 to 149).\<close>

definition convertAll :: "'w Env \<Rightarrow> QItem list \<Rightarrow> 'w World \<Rightarrow> (thrown + QItem list) \<times> 'w World" where
  "convertAll env items s =
     (let work = selectedPositions items in
      convertLoop env work 0 (length work) items (setProgress env 0 s))"

text \<open>The progress values and the item lists published in a log, in order.\<close>

fun progressValues :: "Published list \<Rightarrow> int list" where
  "progressValues [] = []"
| "progressValues (SetProgress v # l) = v # progressValues l"
| "progressValues (SetItems xs # l) = progressValues l"

fun itemSnapshots :: "Published list \<Rightarrow> QItem list list" where
  "itemSnapshots [] = []"
| "itemSnapshots (SetProgress v # l) = itemSnapshots l"
| "itemSnapshots (SetItems xs # l) = xs # itemSnapshots l"

section \<open>The archive assembler: downloadZip\<close>

text \<open>The extension of a target (App.tsx, lines 158 to 168): ten tests in sequence.\<close>

definition extOf :: "string \<Rightarrow> string" where
  "extOf tgt =
     foldl (\<lambda>x (t, e). if tgt = t then e else x) ''.bin''
       [(''image/jpeg'', ''.jpg''), (''image/png'', ''.png''), (''image/webp'', ''.webp''),
        (''audio/mpeg'', ''.mp3''), (''audio/aac'', ''.m4a''), (''audio/ogg'', ''.ogg''),
        (''audio/opus'', ''.opus''), (''audio/wav'', ''.wav''), (''video/webm'', ''.webm''),
        (''application/pdf'', ''.pdf'')]"

text \<open>
  \<open>files\<close> is an object used as a dictionary: an association list in insertion order,
  where a write to a name already present replaces its bytes.
\<close>

type_synonym Files = "(string \<times> bytes) list"

text \<open>The name of a converted output (App.tsx, lines 169 and 170).\<close>

definition entryName :: "QItem \<Rightarrow> string" where
  "entryName it =
     (let f = itemFile it;
          rel = (if webkitRelativePath f \<noteq> [] then webkitRelativePath f else fname f)
      in replaceExt rel (extOf (target it)))"

text \<open>The name of page \<open>i\<close>, counted from 0 (App.tsx, line 181).\<close>

definition pageName :: "QItem \<Rightarrow> nat \<Rightarrow> string" where
  "pageName it i = replaceExt (fname (itemFile it)) (''-page-'' @ numString (int i + 1) @ ''.pdf'')"

text \<open>The loop over the pages of a split document (App.tsx, lines 176 to 183), from page \<open>i\<close>.\<close>

function pageLoop :: "'w Env \<Rightarrow> QItem \<Rightarrow> PdfDoc \<Rightarrow> nat \<Rightarrow> Files \<Rightarrow> ('w, Files) action" where
  "pageLoop env it src i files s =
     (if i < length src then
        (case call (pdfSave env [src ! i]) s of
           (Inl e, s') \<Rightarrow> (Inl e, s')
         | (Inr b, s') \<Rightarrow> pageLoop env it src (i + 1) (AList.update (pageName it i) b files) s')
      else (Inr files, s))"
  by pat_completeness auto
termination
  by (relation "measure (\<lambda>(env, it, src, i, files, s). length src - i)") auto

declare pageLoop.simps [simp del]

text \<open>The loop over the items (App.tsx, lines 155 to 185).\<close>

fun zipLoop :: "'w Env \<Rightarrow> QItem list \<Rightarrow> Files \<Rightarrow> ('w, Files) action" where
  "zipLoop env [] files s = (Inr files, s)"
| "zipLoop env (it # rest) files s =
     (if \<not> selected it then zipLoop env rest files s
      else
        let files1 = (case outBlob it of
                        Some blob \<Rightarrow>
                          if status it = Done then AList.update (entryName it) (blobData blob) files
                          else files
                      | None \<Rightarrow> files)
        in if isPDF (itemFile it) \<and> pdfAction it = PdfSplit then
             (case bindT (call (fileArrayBuffer env (itemFile it))) (\<lambda>buf. call (pdfLoad env buf)) s of
                (Inl e, s1) \<Rightarrow> (Inl e, s1)
              | (Inr src, s1) \<Rightarrow>
                  (case pageLoop env it src 0 files1 s1 of
                     (Inl e, s2) \<Rightarrow> (Inl e, s2)
                   | (Inr files2, s2) \<Rightarrow> zipLoop env rest files2 s2))
           else zipLoop env rest files1 s)"

text \<open>
  \<open>downloadZip\<close> (App.tsx, lines 153 to 191): \<open>None\<close> when there is nothing to archive,
  otherwise the entries handed to \<open>zipSync\<close> and saved as \<open>converted.zip\<close>.
\<close>

definition downloadZip :: "'w Env \<Rightarrow> QItem list \<Rightarrow> ('w, Files option) action" where
  "downloadZip env items =
     bindT (zipLoop env items []) (\<lambda>files. returnT (if files = [] then None else Some files))"

section \<open>Notions used in the statements\<close>

text \<open>
  \<open>attempt env it s\<close> is the item that one round of the loop leaves in place of \<open>it\<close>,
  when the round starts the conversion in state \<open>s\<close> and \<open>next[idx]\<close> is \<open>it\<close> itself.
\<close>

definition attempt :: "'w Env \<Rightarrow> QItem \<Rightarrow> 'w World \<Rightarrow> QItem" where
  "attempt env it s =
     settle (it\<lparr>status := Converting\<rparr>)
       (fst (convertBody env (it\<lparr>status := Converting\<rparr>) (it\<lparr>status := Converting\<rparr>) s))"

text \<open>An action that publishes nothing.\<close>

definition silent :: "('w, 'a) action \<Rightarrow> bool" where
  "silent m = (\<forall>s. uiLog (snd (m s)) = uiLog s)"

text \<open>A terminal status.\<close>

definition terminal :: "ItemStatus \<Rightarrow> bool" where
  "terminal st = (st = Done \<or> st = Error)"

text \<open>The target of an item is one of the targets the classifier gives for its file.\<close>

definition validTarget :: "QItem \<Rightarrow> bool" where
  "validTarget it = (target it \<in> set (inferTargets (ftype (itemFile it)) (fname (itemFile it))))"

text \<open>
  What the archive assembler writes. \<open>writeAll files ws\<close> writes the entries \<open>ws\<close> to
  \<open>files\<close> in order. \<open>outputEntry it\<close> is the entry of the converted output of a selected
  item, if it has one; \<open>pageEntries it bs\<close> are the entries of the pages of a split
  document whose single-page documents were saved as \<open>bs\<close>. \<open>contribution env it ws\<close>
  says that \<open>ws\<close> are the entries written for the item \<open>it\<close>: none for an item that is not
  selected, otherwise the converted output and, for a document to split, one entry per
  page of the loaded document.
\<close>

definition writeAll :: "Files \<Rightarrow> (string \<times> bytes) list \<Rightarrow> Files" where
  "writeAll files ws = foldl (\<lambda>fs (n, b). AList.update n b fs) files ws"

definition outputEntry :: "QItem \<Rightarrow> (string \<times> bytes) list" where
  "outputEntry it =
     (case outBlob it of
        Some blob \<Rightarrow> if status it = Done then [(entryName it, blobData blob)] else []
      | None \<Rightarrow> [])"

definition pageEntries :: "QItem \<Rightarrow> bytes list \<Rightarrow> (string \<times> bytes) list" where
  "pageEntries it bs = zip (map (pageName it) [0..<length bs]) bs"

definition contribution :: "'w Env \<Rightarrow> QItem \<Rightarrow> (string \<times> bytes) list \<Rightarrow> bool" where
  "contribution env it ws =
     (if \<not> selected it then ws = []
      else if isPDF (itemFile it) \<and> pdfAction it = PdfSplit then
        (\<exists>buf src bs w1 w2.
            fst (fileArrayBuffer env (itemFile it) w1) = Inr buf
          \<and> fst (pdfLoad env buf w2) = Inr src
          \<and> length bs = length src
          \<and> (\<forall>i < length src. \<exists>w. fst (pdfSave env [src ! i] w) = Inr (bs ! i))
          \<and> ws = outputEntry it @ pageEntries it bs)
      else ws = outputEntry it)"

section \<open>Concrete files and items used in the examples\<close>

definition mkFile :: "string \<Rightarrow> string \<Rightarrow> File" where
  "mkFile n t = \<lparr>fname = n, ftype = t, webkitRelativePath = ''''\<rparr>"

text \<open>
  An environment in which every operation succeeds, except that the image
  \<open>bad.png\<close> cannot be decoded (the second decoding route rejects with an event, which
  has no message). Its external state is trivial. Every document has three pages.
\<close>

definition demoEnv :: "unit Env" where
  "demoEnv =
     \<lparr>fileArrayBuffer = (\<lambda>f w. (Inr [1, 2, 3], w)),
      heic2any = (\<lambda>f w. (Inr (HeicBlob \<lparr>blobData = [9], blobType = ''image/jpeg''\<rparr>), w)),
      createImageBitmap =
        (\<lambda>f w. (if fname f = ''bad.png'' then Inl (newError ''The source image could not be decoded.'')
                 else Inr [7], w)),
      imageLoad = (\<lambda>f w. (if fname f = ''bad.png'' then Inl (Thrown None ''[object Event]'') else Inr (), w)),
      canvasToBlob = (\<lambda>bmp t q w. (Inr (Some \<lparr>blobData = [8], blobType = t\<rparr>), w)),
      ffLoad = (\<lambda>w. (Inr (), w)),
      fetchFile = (\<lambda>f w. (Inr [1, 2, 3], w)),
      ffWriteFile = (\<lambda>n d w. (Inr (), w)),
      ffExec = (\<lambda>args w. (Inr (), w)),
      ffReadFile = (\<lambda>n w. (Inr [5], w)),
      ffUnlink = (\<lambda>n w. (Inr (), w)),
      pdfLoad = (\<lambda>d w. (Inr [[1], [2], [3]], w)),
      pdfSave = (\<lambda>doc w. (Inr (concat doc), w)),
      mathRandom36 = (\<lambda>w. (''0.k3j9x2ab'', w)),
      dateNow = (\<lambda>w. (1700000000000, w)),
      renderProgress = (\<lambda>v w. w),
      renderItems = (\<lambda>xs w. w)\<rparr>"

definition demoWorld :: "unit World" where
  "demoWorld = \<lparr>ffSet = False, execLog = [], uiLog = [], outside = ()\<rparr>"


text \<open>
  Three queued files, as \<open>addFiles\<close> enqueues them in \<open>demoEnv\<close>: an image, a text file
  (no converter accepts it) and a document.
\<close>

definition photoItem :: QItem where
  "photoItem = newItem ''1700000000000-0-k3j9x2'' (mkFile ''photo.png'' ''image/png'')"

definition notesItem :: QItem where
  "notesItem = newItem ''1700000000000-1-k3j9x2'' (mkFile ''notes.txt'' ''text/plain'')"

definition docItem :: QItem where
  "docItem = newItem ''1700000000000-2-k3j9x2'' (mkFile ''doc.pdf'' ''application/pdf'')"

definition demoItems :: "QItem list" where
  "demoItems = [photoItem, notesItem, docItem]"

text \<open>The same environment after the files have become unreadable.\<close>

definition goneEnv :: "unit Env" where
  "goneEnv = demoEnv\<lparr>fileArrayBuffer :=
     (\<lambda>f w. (Inl (newError ''The requested file could not be read''), w))\<rparr>"

text \<open>The document after a first run that kept it unchanged.\<close>

definition docDone :: QItem where
  "docDone = docItem\<lparr>outBlob := Some \<lparr>blobData = [1, 2, 3], blobType = ''application/pdf''\<rparr>,
                     status := Done\<rparr>"

text \<open>The image after a run; the document with the split action chosen, never converted.\<close>

definition photoDone :: QItem where
  "photoDone = photoItem\<lparr>outBlob := Some \<lparr>blobData = [8], blobType = ''image/jpeg''\<rparr>, status := Done\<rparr>"

definition splitItem :: QItem where
  "splitItem = docItem\<lparr>pdfAction := PdfSplit\<rparr>"

text \<open>Two converted images whose names differ in the extension only.\<close>

definition aPng :: QItem where
  "aPng = (newItem ''1700000000000-0-k3j9x2'' (mkFile ''a.png'' ''image/png''))
            \<lparr>outBlob := Some \<lparr>blobData = [1], blobType = ''image/jpeg''\<rparr>, status := Done\<rparr>"

definition aWebp :: QItem where
  "aWebp = (newItem ''1700000000000-1-k3j9x2'' (mkFile ''a.webp'' ''image/webp''))
            \<lparr>outBlob := Some \<lparr>blobData = [2], blobType = ''image/jpeg''\<rparr>, status := Done\<rparr>"

text \<open>
  A document with the split action that a first run could not read, and the converted
  document \<open>docDone\<close> after split has been chosen for it.
\<close>

definition scanSplit :: QItem where
  "scanSplit = (newItem ''1700000000000-1-k3j9x2'' (mkFile ''scan.pdf'' ''application/pdf''))
      \<lparr>pdfAction := PdfSplit, status := Error, errorMsg := Some ''The requested file could not be read''\<rparr>"

definition staleSplit :: QItem where
  "staleSplit = docDone\<lparr>pdfAction := PdfSplit\<rparr>"

text \<open>
  An environment that makes the order of events visible: its external state is the
  progress shown on screen, and reading a file returns that number. Three documents are
  queued in it.
\<close>

definition probeEnv :: "int Env" where
  "probeEnv =
     \<lparr>fileArrayBuffer = (\<lambda>f w. (Inr [nat w], w)),
      heic2any = (\<lambda>f w. (Inr (HeicOther [nat w]), w)),
      createImageBitmap = (\<lambda>f w. (Inr [nat w], w)),
      imageLoad = (\<lambda>f w. (Inr (), w)),
      canvasToBlob = (\<lambda>bmp t q w. (Inr (Some \<lparr>blobData = bmp, blobType = t\<rparr>), w)),
      ffLoad = (\<lambda>w. (Inr (), w)),
      fetchFile = (\<lambda>f w. (Inr [nat w], w)),
      ffWriteFile = (\<lambda>n d w. (Inr (), w)),
      ffExec = (\<lambda>args w. (Inr (), w)),
      ffReadFile = (\<lambda>n w. (Inr [nat w], w)),
      ffUnlink = (\<lambda>n w. (Inr (), w)),
      pdfLoad = (\<lambda>d w. (Inr [d], w)),
      pdfSave = (\<lambda>doc w. (Inr (concat doc), w)),
      mathRandom36 = (\<lambda>w. (''0.k3j9x2ab'', w)),
      dateNow = (\<lambda>w. (1700000000000, w)),
      renderProgress = (\<lambda>v w. v),
      renderItems = (\<lambda>xs w. w)\<rparr>"

definition probeWorld :: "int World" where
  "probeWorld = \<lparr>ffSet = False, execLog = [], uiLog = [], outside = 0\<rparr>"

definition probeA :: QItem where
  "probeA = newItem ''1700000000000-0-k3j9x2'' (mkFile ''a.pdf'' ''application/pdf'')"

definition probeB :: QItem where
  "probeB = newItem ''1700000000000-1-k3j9x2'' (mkFile ''b.pdf'' ''application/pdf'')"

definition probeC :: QItem where
  "probeC = newItem ''1700000000000-2-k3j9x2'' (mkFile ''c.pdf'' ''application/pdf'')"

definition probeItems :: "QItem list" where
  "probeItems = [probeA, probeB, probeC]"

text \<open>Forty text files, enqueued by \<open>addFiles\<close> in \<open>demoEnv\<close>.\<close>

definition fortyItems :: "QItem list" where
  "fortyItems = fst (addFiles demoEnv (replicate 40 (mkFile ''notes.txt'' ''text/plain'')) [] ())"

section \<open>Properties of the naming helper\<close>

lemma lastIndexOf_none: "c \<notin> set s \<Longrightarrow> lastIndexOf s c = - 1"
  by (induction s) auto

lemma lastIndexOf_last: "c \<notin> set suf \<Longrightarrow> lastIndexOf (pre @ c # suf) c = int (length pre)"
  by (induction pre) (auto simp: Let_def lastIndexOf_none)

text \<open>
  C9. A name that contains a dot is cut at its last dot and the new extension is put in
  place of what follows; in particular \<open>replaceExt "a.b.heic" ".jpg"\<close> is \<open>"a.b.jpg"\<close>.
  A name without a dot gets the new extension appended.
\<close>

theorem replaceExt_last_dot:
  "(CHR ''.'' \<notin> set suf \<longrightarrow> replaceExt (pre @ CHR ''.'' # suf) ext = pre @ ext)
   \<and> (CHR ''.'' \<notin> set name \<longrightarrow> replaceExt name ext = name @ ext)
   \<and> replaceExt ''a.b.heic'' ''.jpg'' = ''a.b.jpg''"
  by (simp add: replaceExt_def lastIndexOf_none lastIndexOf_last)

theorem replaceExt_last_dot_witness:
  "CHR ''.'' \<notin> set ''heic'' \<and> replaceExt (''a.b'' @ CHR ''.'' # ''heic'') ''.jpg'' = ''a.b'' @ ''.jpg''
   \<and> CHR ''.'' \<notin> set ''README'' \<and> replaceExt ''README'' ''.pdf'' = ''README'' @ ''.pdf''"
  using replaceExt_last_dot [of "''heic''" "''a.b''" "''.jpg''" "''README''"]
    replaceExt_last_dot [of "''heic''" "''a.b''" "''.pdf''" "''README''"]
  by simp

section \<open>Properties of the type classifier\<close>

lemma toLowerCase_idem: "toLowerCase (toLowerCase s) = toLowerCase s"
proof -
  have "lowerChar (lowerChar c) = lowerChar c" for c
    unfolding lowerChar_def by (simp split: option.splits if_splits)
  then show ?thesis by (simp add: toLowerCase_def)
qed

text \<open>
  C6, as the claim states it, fails: a file recognised as an image by its extension
  only (no declared media type) is not classified as an image. \<open>photo.png\<close> with an
  empty type is not HEIC, and its list of targets is empty.
\<close>

theorem inferTargets_image_extension_counterexample:
  "endsWith (toLowerCase ''photo.png'') ''.png''
   \<and> \<not> isHeic (mkFile ''photo.png'' '''')
   \<and> inferTargets '''' ''photo.png'' = []"
  by code_simp

text \<open>
  C6, amended. The classifier looks at six cases in order. A name ending in
  \<open>.heic\<close> or \<open>.heif\<close> (in any letter case) gives JPEG alone. Otherwise, for a file that is
  not HEIC, a declared type starting with \<open>image/\<close> gives JPEG, PNG, WEBP, whatever the
  extension; the extension alone never makes a file an image. Then come audio, video and
  PDF, each by declared type or extension, and everything else has no target.
\<close>

theorem inferTargets_precedence:
  "(endsWith (toLowerCase (fname f)) ''.heic'' \<or> endsWith (toLowerCase (fname f)) ''.heif''
      \<longrightarrow> inferTargets (ftype f) (fname f) = [''image/jpeg''])
   \<and> (\<not> isHeic f \<and> startsWith (ftype f) ''image/''
      \<longrightarrow> inferTargets (ftype f) (fname f) = [''image/jpeg'', ''image/png'', ''image/webp''])
   \<and> (\<not> isHeic f \<and> \<not> startsWith (ftype f) ''image/'' \<and> isAudio f
      \<longrightarrow> inferTargets (ftype f) (fname f) = AUDIO_TARGETS)
   \<and> (\<not> isHeic f \<and> \<not> startsWith (ftype f) ''image/'' \<and> \<not> isAudio f \<and> isVideo f
      \<longrightarrow> inferTargets (ftype f) (fname f) = VIDEO_TARGETS)
   \<and> (\<not> isHeic f \<and> \<not> startsWith (ftype f) ''image/'' \<and> \<not> isAudio f \<and> \<not> isVideo f \<and> isPDF f
      \<longrightarrow> inferTargets (ftype f) (fname f) = [''application/pdf''])
   \<and> (\<not> isHeic f \<and> \<not> startsWith (ftype f) ''image/'' \<and> \<not> isAudio f \<and> \<not> isVideo f \<and> \<not> isPDF f
      \<longrightarrow> inferTargets (ftype f) (fname f) = [])"
  by (simp add: inferTargets_def isHeic_def isAudio_def isVideo_def isPDF_def IMAGE_TARGETS_def
      Let_def audioExt_def videoExt_def toLowerCase_idem)

theorem inferTargets_precedence_witness:
  "endsWith (toLowerCase ''IMG_1.HEIC'') ''.heic''
   \<and> inferTargets ''audio/mpeg'' ''IMG_1.HEIC'' = [''image/jpeg'']
   \<and> \<not> isHeic (mkFile ''cover.mp3'' ''image/png'') \<and> startsWith ''image/png'' ''image/''
   \<and> inferTargets ''image/png'' ''cover.mp3'' = [''image/jpeg'', ''image/png'', ''image/webp'']
   \<and> isAudio (mkFile ''talk.webm'' ''audio/webm'')
   \<and> inferTargets ''audio/webm'' ''talk.webm'' = AUDIO_TARGETS
   \<and> isVideo (mkFile ''clip.mov'' '''') \<and> \<not> isAudio (mkFile ''clip.mov'' '''')
   \<and> inferTargets '''' ''clip.mov'' = VIDEO_TARGETS
   \<and> isPDF (mkFile ''doc.PDF'' '''') \<and> \<not> isVideo (mkFile ''doc.PDF'' '''')
   \<and> inferTargets '''' ''doc.PDF'' = [''application/pdf'']
   \<and> \<not> isPDF (mkFile ''photo.png'' '''')
   \<and> inferTargets '''' ''photo.png'' = []"
proof -
  have sel: "fname (mkFile n t) = n" "ftype (mkFile n t) = t" for n t
    by (simp_all add: mkFile_def)
  have h1: "endsWith (toLowerCase ''IMG_1.HEIC'') ''.heic''"
    by code_simp
  have h2: "\<not> isHeic (mkFile ''cover.mp3'' ''image/png'')" "startsWith ''image/png'' ''image/''"
    by code_simp+
  have h3: "\<not> isHeic (mkFile ''talk.webm'' ''audio/webm'')" "\<not> startsWith ''audio/webm'' ''image/''"
    "isAudio (mkFile ''talk.webm'' ''audio/webm'')"
    by code_simp+
  have h4: "\<not> isHeic (mkFile ''clip.mov'' '''')" "\<not> startsWith '''' ''image/''"
    "\<not> isAudio (mkFile ''clip.mov'' '''')" "isVideo (mkFile ''clip.mov'' '''')"
    by code_simp+
  have h5: "\<not> isHeic (mkFile ''doc.PDF'' '''')" "\<not> isAudio (mkFile ''doc.PDF'' '''')"
    "\<not> isVideo (mkFile ''doc.PDF'' '''')" "isPDF (mkFile ''doc.PDF'' '''')"
    by code_simp+
  have h6: "\<not> isHeic (mkFile ''photo.png'' '''')" "\<not> isAudio (mkFile ''photo.png'' '''')"
    "\<not> isVideo (mkFile ''photo.png'' '''')" "\<not> isPDF (mkFile ''photo.png'' '''')"
    by code_simp+
  have c1: "inferTargets ''audio/mpeg'' ''IMG_1.HEIC'' = [''image/jpeg'']"
    using inferTargets_precedence [of "mkFile ''IMG_1.HEIC'' ''audio/mpeg''"] h1
    by (simp only: sel simp_thms)
  have c2: "inferTargets ''image/png'' ''cover.mp3'' = [''image/jpeg'', ''image/png'', ''image/webp'']"
    using inferTargets_precedence [of "mkFile ''cover.mp3'' ''image/png''"] h2
    by (simp only: sel simp_thms)
  have c3: "inferTargets ''audio/webm'' ''talk.webm'' = AUDIO_TARGETS"
    using inferTargets_precedence [of "mkFile ''talk.webm'' ''audio/webm''"] h3
    by (simp only: sel simp_thms)
  have c4: "inferTargets '''' ''clip.mov'' = VIDEO_TARGETS"
    using inferTargets_precedence [of "mkFile ''clip.mov'' ''''"] h4
    by (simp only: sel simp_thms)
  have c5: "inferTargets '''' ''doc.PDF'' = [''application/pdf'']"
    using inferTargets_precedence [of "mkFile ''doc.PDF'' ''''"] h4(2) h5
    by (simp only: sel simp_thms)
  have c6: "inferTargets '''' ''photo.png'' = []"
    using inferTargets_precedence [of "mkFile ''photo.png'' ''''"] h4(2) h6
    by (simp only: sel simp_thms)
  show ?thesis
    using h1 h2 h3(3) h4(3,4) h5(3,4) h6(4) c1 c2 c3 c4 c5 c6 by (simp only: simp_thms)
qed

section \<open>Properties of the audio converter\<close>

lemma bindT_cases:
  assumes "bindT m f s = (r, s')"
  obtains (throws) e where "m s = (Inl e, s')" "r = Inl e"
        | (returns) a s1 where "m s = (Inr a, s1)" "f a s1 = (r, s')"
  using assms by (auto simp: bindT_def split: prod.splits sum.splits)






lemma swallowT_returns: "swallowT m s = (r, s') \<Longrightarrow> r = Inr ()"
  by (auto simp: swallowT_def split: prod.splits sum.splits)








lemma audioCommand_Inl:
  "audioCommand inName tgt opts = Inl e \<Longrightarrow>
     tgt \<notin> set AUDIO_TARGETS \<and> e = newError ''Unsupported audio target''"
  by (simp add: audioCommand_def AUDIO_TARGETS_def Let_def split: if_splits)




lemma bindT_Inr: "m s = (Inr a, s1) \<Longrightarrow> bindT m f s = f a s1"
  by (simp add: bindT_def)






section \<open>Properties of the progress arithmetic\<close>

lemma binadeUp_spec:
  "1 \<le> x \<Longrightarrow> binadeUp x \<le> x \<and> x < 2 * binadeUp x \<and> (\<exists>i::int. binadeUp x = 2 powi i)"
proof (induction x rule: binadeUp.induct)
  case (1 x)
  show ?case
  proof (cases "x < 2")
    case True
    have eq: "binadeUp x = 1" using True by (subst binadeUp.simps) simp
    have "binadeUp x = 2 powi 0" unfolding eq by simp
    then have "\<exists>i::int. binadeUp x = 2 powi i" ..
    moreover have "binadeUp x \<le> x" "x < 2 * binadeUp x" using True 1(2) by (simp_all add: eq)
    ultimately show ?thesis by blast
  next
    case False
    then have "1 \<le> x / 2" by simp
    from 1(1) [OF False this] obtain i :: int
      where ih: "binadeUp (x / 2) \<le> x / 2" "x / 2 < 2 * binadeUp (x / 2)" "binadeUp (x / 2) = 2 powi i"
      by blast
    have eq: "binadeUp x = 2 * binadeUp (x / 2)" using False by (subst binadeUp.simps) simp
    have "binadeUp x = 2 powi (i + 1)" unfolding eq ih(3) by (simp add: power_int_add)
    then have "\<exists>i::int. binadeUp x = 2 powi i" ..
    moreover have "binadeUp x \<le> x" "x < 2 * binadeUp x" using ih(1,2) by (simp_all add: eq)
    ultimately show ?thesis by blast
  qed
qed

lemma binadeDown_spec:
  "0 < x \<Longrightarrow> x < 1 \<Longrightarrow> binadeDown x \<le> x \<and> x < 2 * binadeDown x \<and> (\<exists>i::int. binadeDown x = 2 powi i)"
proof (induction x rule: binadeDown.induct)
  case (1 x)
  show ?case
  proof (cases "1 \<le> 2 * x")
    case True
    have eq: "binadeDown x = 1 / 2" using True by (subst binadeDown.simps) simp
    have "binadeDown x = 2 powi (- 1)" unfolding eq by (simp add: power_int_minus)
    then have "\<exists>i::int. binadeDown x = 2 powi i" ..
    moreover have "binadeDown x \<le> x" "x < 2 * binadeDown x" using True 1(3) by (simp_all add: eq)
    ultimately show ?thesis by blast
  next
    case False
    then have c: "\<not> (x \<le> 0 \<or> 1 \<le> 2 * x)" "0 < 2 * x" "2 * x < 1" using 1(2) by simp_all
    from 1(1) [OF c] obtain i :: int
      where ih: "binadeDown (2 * x) \<le> 2 * x" "2 * x < 2 * binadeDown (2 * x)" "binadeDown (2 * x) = 2 powi i"
      by blast
    have eq: "binadeDown x = binadeDown (2 * x) / 2" using c(1) by (subst binadeDown.simps) simp
    have "binadeDown x = 2 powi (i - 1)" unfolding eq ih(3) by (simp add: power_int_diff)
    then have "\<exists>i::int. binadeDown x = 2 powi i" ..
    moreover have "binadeDown x \<le> x" "x < 2 * binadeDown x" using ih(1,2) by (simp_all add: eq)
    ultimately show ?thesis by blast
  qed
qed

lemma binade_spec:
  assumes "0 < x"
  shows "binade x \<le> x" "x < 2 * binade x" "\<exists>i::int. binade x = 2 powi i" "0 < binade x"
proof -
  have *: "binade x \<le> x \<and> x < 2 * binade x \<and> (\<exists>i::int. binade x = 2 powi i)"
    using binadeUp_spec [of x] binadeDown_spec [of x] assms by (cases "1 \<le> x") (simp_all add: binade_def)
  then show "binade x \<le> x" "x < 2 * binade x" "\<exists>i::int. binade x = 2 powi i" by blast+
  from * obtain i :: int where "binade x = 2 powi i" by blast
  then show "0 < binade x" by simp
qed

lemma binade_mono:
  assumes "0 < x" "x \<le> y"
  shows "binade x = binade y \<or> 2 * binade x \<le> binade y"
proof -
  have y: "0 < y" using assms by simp
  obtain i :: int where i: "binade x = 2 powi i" using binade_spec(3) [OF assms(1)] by blast
  obtain j :: int where j: "binade y = 2 powi j" using binade_spec(3) [OF y] by blast
  have "\<not> j < i"
  proof
    assume "j < i"
    then have "j + 1 \<le> i" by simp
    then have "(2::rat) powi (j + 1) \<le> 2 powi i" by (intro power_int_increasing) simp_all
    then have "2 * binade y \<le> binade x" using i j by (simp add: power_int_add)
    then show False using binade_spec(1) [OF assms(1)] binade_spec(2) [OF y] assms(2) by linarith
  qed
  then consider "i = j" | "i + 1 \<le> j" by linarith
  then show ?thesis
  proof cases
    case 1
    then show ?thesis using i j by simp
  next
    case 2
    then have "(2::rat) powi (i + 1) \<le> 2 powi j" by (intro power_int_increasing) simp_all
    then show ?thesis using i j by (simp add: power_int_add)
  qed
qed

lemma roundHalfEven_bounds: "\<lfloor>x\<rfloor> \<le> roundHalfEven x" "roundHalfEven x \<le> \<lfloor>x\<rfloor> + 1"
  by (simp_all add: roundHalfEven_def Let_def)

lemma roundHalfEven_mono:
  assumes "x \<le> y"
  shows "roundHalfEven x \<le> roundHalfEven y"
proof (cases "\<lfloor>x\<rfloor> = \<lfloor>y\<rfloor>")
  case True
  then have "x - of_int \<lfloor>x\<rfloor> \<le> y - of_int \<lfloor>y\<rfloor>" using assms by simp
  then show ?thesis using True by (auto simp: roundHalfEven_def Let_def)
next
  case False
  then have "\<lfloor>x\<rfloor> < \<lfloor>y\<rfloor>" using floor_mono [OF assms] by simp
  then show ?thesis
    using roundHalfEven_bounds(2) [of x] roundHalfEven_bounds(1) [of y] by linarith
qed

lemma bin64_range:
  assumes "0 < x"
  shows "binade x \<le> bin64 x" "bin64 x \<le> 2 * binade x"
proof -
  define u where "u = binade x / 2 ^ 52"
  have b: "0 < binade x" "binade x \<le> x" "x < 2 * binade x"
    using binade_spec [OF assms] by simp_all
  have u: "0 < u" using b(1) by (simp add: u_def)
  have bu: "binade x = 2 ^ 52 * u" by (simp add: u_def)
  have lo: "2 ^ 52 \<le> x / u" using b(2) u bu by (simp add: pos_le_divide_eq)
  have hi: "x / u < 2 ^ 53" using b(3) u bu by (simp add: pos_divide_less_eq)
  have "(2 ^ 52 :: int) \<le> \<lfloor>x / u\<rfloor>" using lo by (simp add: le_floor_iff)
  then have m1: "2 ^ 52 \<le> roundHalfEven (x / u)" using roundHalfEven_bounds(1) [of "x / u"] by linarith
  have "\<lfloor>x / u\<rfloor> < (2 ^ 53 :: int)" using hi by (simp add: floor_less_iff)
  then have m2: "roundHalfEven (x / u) \<le> 2 ^ 53" using roundHalfEven_bounds(2) [of "x / u"] by linarith
  have eq: "bin64 x = of_int (roundHalfEven (x / u)) * u"
    using assms by (simp add: bin64_def Let_def u_def)
  have "(2 ^ 52 :: rat) \<le> of_int (roundHalfEven (x / u))" using m1 by (metis of_int_le_iff of_int_numeral of_int_power)
  then have "2 ^ 52 * u \<le> of_int (roundHalfEven (x / u)) * u" using u by (simp add: mult_right_mono)
  then show "binade x \<le> bin64 x" using eq bu by simp
  have "of_int (roundHalfEven (x / u)) \<le> (2 ^ 53 :: rat)" using m2 by (metis of_int_le_iff of_int_numeral of_int_power)
  then have "of_int (roundHalfEven (x / u)) * u \<le> 2 ^ 53 * u" using u by (simp add: mult_right_mono)
  then show "bin64 x \<le> 2 * binade x" using eq bu by simp
qed

lemma bin64_nonneg: "0 \<le> x \<Longrightarrow> 0 \<le> bin64 x"
proof (cases "x = 0")
  case True
  then show ?thesis by (simp add: bin64_def)
next
  case False
  assume "0 \<le> x"
  with False have "0 < x" by simp
  from bin64_range(1) [OF this] binade_spec(4) [OF this] show ?thesis by linarith
qed

lemma bin64_mono:
  assumes "0 \<le> x" "x \<le> y"
  shows "bin64 x \<le> bin64 y"
proof (cases "x = 0")
  case True
  then show ?thesis using bin64_nonneg [of y] assms by (simp add: bin64_def)
next
  case False
  then have x: "0 < x" and y: "0 < y" using assms by simp_all
  from binade_mono [OF x assms(2)] show ?thesis
  proof
    assume same: "binade x = binade y"
    define u where "u = binade y / 2 ^ 52"
    have u: "0 < u" using binade_spec(4) [OF y] by (simp add: u_def)
    have "x / u \<le> y / u" using assms(2) u by (simp add: divide_right_mono)
    then have "roundHalfEven (x / u) \<le> roundHalfEven (y / u)" by (rule roundHalfEven_mono)
    then have "(of_int (roundHalfEven (x / u)) :: rat) * u \<le> of_int (roundHalfEven (y / u)) * u"
      using u by (simp add: mult_right_mono)
    then show ?thesis using x y same by (simp add: bin64_def Let_def u_def)
  next
    assume "2 * binade x \<le> binade y"
    then show ?thesis using bin64_range(2) [OF x] bin64_range(1) [OF y] by linarith
  qed
qed

lemma Math_round_mono: "x \<le> y \<Longrightarrow> Math_round x \<le> Math_round y"
  by (simp add: Math_round_def floor_mono)

lemma percent_mono: "j \<le> k \<Longrightarrow> percent j n \<le> percent k n"
proof -
  assume jk: "j \<le> k"
  have "(of_nat j :: rat) / of_nat n \<le> of_nat k / of_nat n" using jk by (simp add: divide_right_mono)
  moreover have "0 \<le> (of_nat j :: rat) / of_nat n" by simp
  ultimately have "bin64 (of_nat j / of_nat n) \<le> bin64 (of_nat k / of_nat n)" by (rule bin64_mono [rotated])
  then have "bin64 (of_nat j / of_nat n) * 100 \<le> bin64 (of_nat k / of_nat n) * 100" by simp
  moreover have "0 \<le> bin64 (of_nat j / of_nat n) * 100" using bin64_nonneg [of "of_nat j / of_nat n"] by simp
  ultimately have "bin64 (bin64 (of_nat j / of_nat n) * 100) \<le> bin64 (bin64 (of_nat k / of_nat n) * 100)"
    by (rule bin64_mono [rotated])
  then show ?thesis unfolding percent_def by (rule Math_round_mono)
qed

lemma percent_nonneg: "0 \<le> percent k n"
proof -
  have "0 \<le> bin64 (bin64 (of_nat k / of_nat n) * 100)"
    by (intro bin64_nonneg mult_nonneg_nonneg) simp_all
  then have "(0::rat) \<le> bin64 (bin64 (of_nat k / of_nat n) * 100) + 1 / 2" by simp
  then show ?thesis unfolding percent_def Math_round_def by (simp add: le_floor_iff)
qed

lemma bin64_1: "bin64 1 = 1" by code_simp
lemma bin64_100: "bin64 100 = 100" by code_simp

lemma Math_round_of_int: "Math_round (of_int z) = z"
  unfolding Math_round_def by (rule floor_unique) simp_all

lemma percent_all: "0 < n \<Longrightarrow> percent n n = 100"
  using Math_round_of_int [of 100] by (simp add: percent_def bin64_1 bin64_100)

text \<open>
  The distance between the published percentage and the exact one. Each binary64 rounding
  changes a positive number by at most \<open>2^-53\<close> of it.
\<close>

lemma roundHalfEven_near: "\<bar>of_int (roundHalfEven q) - q\<bar> \<le> 1 / 2"
proof -
  have "of_int \<lfloor>q\<rfloor> \<le> q" "q < of_int \<lfloor>q\<rfloor> + 1" by linarith+
  then show ?thesis by (auto simp: roundHalfEven_def Let_def)
qed

lemma bin64_rel_error:
  assumes "0 < x"
  shows "\<bar>bin64 x - x\<bar> \<le> x / 2 ^ 53"
proof -
  define u where "u = binade x / 2 ^ 52"
  have b: "0 < binade x" "binade x \<le> x" using binade_spec [OF assms] by simp_all
  have u: "0 < u" using b(1) by (simp add: u_def)
  have eq: "bin64 x = of_int (roundHalfEven (x / u)) * u"
    using assms by (simp add: bin64_def Let_def u_def)
  have "bin64 x - x = (of_int (roundHalfEven (x / u)) - x / u) * u"
    using u by (simp add: eq field_simps)
  then have "\<bar>bin64 x - x\<bar> = \<bar>of_int (roundHalfEven (x / u)) - x / u\<bar> * u"
    using u by (simp add: abs_mult)
  also have "\<dots> \<le> 1 / 2 * u" using roundHalfEven_near [of "x / u"] u by (simp add: mult_right_mono)
  also have "\<dots> = binade x / 2 ^ 53" by (simp add: u_def)
  also have "\<dots> \<le> x / 2 ^ 53" using b(2) by (simp add: divide_right_mono)
  finally show ?thesis .
qed

lemma percent_product_error:
  assumes "0 < x" "x \<le> 1"
  shows "\<bar>bin64 (bin64 x * 100) - 100 * x\<bar> \<le> 300 / 2 ^ 53"
proof -
  define a where "a = bin64 x"
  have e1: "\<bar>a - x\<bar> \<le> x / 2 ^ 53" unfolding a_def by (rule bin64_rel_error [OF assms(1)])
  have "x / 2 ^ 53 \<le> x" using assms(1) by (simp add: field_simps)
  with e1 have a2: "a \<le> 2 * x" by linarith
  have "0 < binade x" using binade_spec(4) [OF assms(1)] .
  then have a0: "0 < a" using bin64_range(1) [OF assms(1)] unfolding a_def by linarith
  then have y0: "0 < a * 100" by simp
  have e2: "\<bar>bin64 (a * 100) - a * 100\<bar> \<le> a * 100 / 2 ^ 53" by (rule bin64_rel_error [OF y0])
  have "a * 100 / 2 ^ 53 \<le> 200 * x / 2 ^ 53" using a2 by (simp add: field_simps)
  with e2 have e2': "\<bar>bin64 (a * 100) - a * 100\<bar> \<le> 200 * x / 2 ^ 53" by linarith
  have "bin64 (a * 100) - 100 * x = (bin64 (a * 100) - a * 100) + 100 * (a - x)" by simp
  then have "\<bar>bin64 (a * 100) - 100 * x\<bar> \<le> \<bar>bin64 (a * 100) - a * 100\<bar> + \<bar>100 * (a - x)\<bar>"
    by (simp only: abs_triangle_ineq)
  also have "\<bar>100 * (a - x)\<bar> = 100 * \<bar>a - x\<bar>" by (subst abs_mult) simp
  finally have "\<bar>bin64 (a * 100) - 100 * x\<bar> \<le> \<bar>bin64 (a * 100) - a * 100\<bar> + 100 * \<bar>a - x\<bar>" .
  also have "\<dots> \<le> 200 * x / 2 ^ 53 + 100 * (x / 2 ^ 53)" using e2' e1 by (intro add_mono mult_left_mono) simp_all
  also have "\<dots> = 300 * x / 2 ^ 53" by simp
  also have "\<dots> \<le> 300 / 2 ^ 53" using assms(2) by (simp add: field_simps)
  finally show ?thesis unfolding a_def .
qed

lemma percent_near:
  assumes k: "0 < k" "k \<le> n" and n: "n < 2 ^ 32"
  shows "\<bar>of_int (percent k n) - 100 * of_nat k / (of_nat n :: rat)\<bar> \<le> 1 / 2"
proof -
  define N :: rat where "N = of_nat n"
  define K :: rat where "K = of_nat k"
  define b where "b = bin64 (bin64 (K / N) * 100)"
  define p where "p = percent k n"
  have N0: "0 < N" using k by (simp add: N_def)
  have NK: "0 < K" "K \<le> N" using k by (simp_all add: N_def K_def)
  have x: "0 < K / N" "K / N \<le> 1" using N0 NK by simp_all
  have err: "\<bar>b - 100 * (K / N)\<bar> \<le> 300 / 2 ^ 53"
    unfolding b_def by (rule percent_product_error [OF x])
  have "n < 4294967296" using n by simp
  then have Nb: "N < 4294967296" unfolding N_def by (metis of_nat_less_iff of_nat_numeral)
  have small: "2 * N * (300 / 2 ^ 53) < 1" using Nb by simp
  have p_def': "p = \<lfloor>b + 1 / 2\<rfloor>" by (simp add: p_def percent_def Math_round_def b_def K_def N_def)
  have pu: "of_int p \<le> b + 1 / 2" and pl: "b + 1 / 2 < of_int p + 1"
    unfolding p_def' by linarith+
  have bu: "b \<le> 100 * (K / N) + 300 / 2 ^ 53" and bl: "100 * (K / N) - 300 / 2 ^ 53 \<le> b"
    using err by linarith+
  have KN: "2 * N * (100 * (K / N)) = 200 * K" using N0 by simp
  have up: "2 * N * of_int p < 200 * K + N + 1"
  proof -
    have "2 * N * of_int p \<le> 2 * N * (100 * (K / N) + 300 / 2 ^ 53 + 1 / 2)"
      using pu bu N0 by (intro mult_left_mono) linarith+
    also have "\<dots> = 200 * K + 2 * N * (300 / 2 ^ 53) + N"
      unfolding distrib_left KN by simp
    also have "\<dots> < 200 * K + N + 1" using small by linarith
    finally show ?thesis .
  qed
  have lo: "200 * K - N - 1 < 2 * N * of_int p"
  proof -
    have "200 * K - N - 1 < 200 * K - 2 * N * (300 / 2 ^ 53) - N" using small by linarith
    also have "\<dots> = 2 * N * (100 * (K / N) - 300 / 2 ^ 53 - 1 / 2)"
      unfolding right_diff_distrib KN by simp
    also have "\<dots> \<le> 2 * N * of_int p"
      using pl bl N0 by (intro mult_left_mono) linarith+
    finally show ?thesis .
  qed
  have "(of_int (2 * int n * p) :: rat) < of_int (200 * int k + int n + 1)"
    using up by (simp add: N_def K_def)
  then have "2 * int n * p < 200 * int k + int n + 1" by (simp only: of_int_less_iff)
  then have "2 * int n * p \<le> 200 * int k + int n" by simp
  then have "(of_int (2 * int n * p) :: rat) \<le> of_int (200 * int k + int n)" by (simp only: of_int_le_iff)
  then have up': "2 * N * of_int p \<le> 200 * K + N" by (simp add: N_def K_def)
  have "(of_int (200 * int k - int n - 1) :: rat) < of_int (2 * int n * p)"
    using lo by (simp add: N_def K_def)
  then have "200 * int k - int n - 1 < 2 * int n * p" by (simp only: of_int_less_iff)
  then have "200 * int k - int n \<le> 2 * int n * p" by simp
  then have "(of_int (200 * int k - int n) :: rat) \<le> of_int (2 * int n * p)" by (simp only: of_int_le_iff)
  then have lo': "200 * K - N \<le> 2 * N * of_int p" by (simp add: N_def K_def)
  have "of_int p \<le> 100 * K / N + 1 / 2" using up' N0 by (simp add: field_simps)
  moreover have "100 * K / N - 1 / 2 \<le> of_int p" using lo' N0 by (simp add: field_simps)
  ultimately show ?thesis unfolding p_def K_def N_def by linarith
qed

lemma percent_nearest:
  assumes k: "0 < k" "k \<le> n" and n: "n < 2 ^ 32"
  shows "percent k n = Math_round (100 * of_nat k / of_nat n)
       \<or> (of_int (percent k n) :: rat) = 100 * of_nat k / of_nat n - 1 / 2"
proof (cases "(of_int (percent k n) :: rat) = 100 * of_nat k / of_nat n - 1 / 2")
  case True
  then show ?thesis by simp
next
  case False
  from percent_near [OF assms] False
  have "(of_int (percent k n) :: rat) \<le> 100 * of_nat k / of_nat n + 1 / 2"
    "100 * of_nat k / of_nat n + 1 / 2 < (of_int (percent k n) :: rat) + 1" by linarith+
  then have "\<lfloor>100 * of_nat k / of_nat n + 1 / 2 :: rat\<rfloor> = percent k n" by (rule floor_unique)
  then show ?thesis by (simp add: Math_round_def)
qed

section \<open>Properties of the batch orchestrator\<close>

lemma findIndex_nonneg_iff: "0 \<le> findIndex P xs \<longleftrightarrow> (\<exists>x \<in> set xs. P x)"
  by (induction xs) (auto simp: Let_def)

lemma findIndex_ge: "- 1 \<le> findIndex P xs"
  by (induction xs) (auto simp: Let_def)

lemma findIndex_distinct:
  "distinct (map f xs) \<Longrightarrow> p < length xs \<Longrightarrow> findIndex (\<lambda>m. f m = f (xs ! p)) xs = int p"
proof (induction xs arbitrary: p)
  case Nil
  then show ?case by simp
next
  case (Cons x xs)
  show ?case
  proof (cases p)
    case 0
    then show ?thesis by simp
  next
    case (Suc q)
    with Cons.prems have q: "q < length xs" and d: "distinct (map f xs)" and nx: "f x \<notin> f ` set xs"
      by simp_all
    have "f (xs ! q) \<in> f ` set xs" using q by simp
    with nx have "f x \<noteq> f (xs ! q)" by metis
    then show ?thesis using Cons.IH [OF d q] Suc by (simp add: Let_def)
  qed
qed

lemma convertBody_status_irrelevant: "convertBody env (it\<lparr>status := x\<rparr>) tgt = convertBody env it tgt"
  by (simp add: convertBody_def)

lemma convertBody_Inr:
  assumes "convertBody env it tgt s = (Inr m, s')"
  shows "status m = Done" "itemId m = itemId tgt" "selected m = selected tgt" "itemFile m = itemFile tgt"
    "pdfAction m = pdfAction tgt" "errorMsg m = errorMsg tgt"
  using assms
  by (auto simp: convertBody_def bindT_def returnT_def throwT_def Let_def
      split: if_splits prod.splits sum.splits)

lemma settle_fields:
  assumes "convertBody env it tgt s = (r, s')"
  shows "itemId (settle tgt r) = itemId tgt \<and> selected (settle tgt r) = selected tgt
    \<and> itemFile (settle tgt r) = itemFile tgt \<and> pdfAction (settle tgt r) = pdfAction tgt
    \<and> (status (settle tgt r) = Done \<or> status (settle tgt r) = Error)"
proof (cases r)
  case (Inl e)
  then show ?thesis by (simp add: settle_def)
next
  case (Inr m)
  with assms have "convertBody env it tgt s = (Inr m, s')" by simp
  from convertBody_Inr [OF this] Inr show ?thesis by (simp add: settle_def)
qed

lemma progressValues_append: "progressValues (a @ b) = progressValues a @ progressValues b"
  by (induction a rule: progressValues.induct) simp_all

lemma itemSnapshots_append: "itemSnapshots (a @ b) = itemSnapshots a @ itemSnapshots b"
  by (induction a rule: itemSnapshots.induct) simp_all

lemma map_itemId_update:
  "p < length xs \<Longrightarrow> itemId x = itemId (xs ! p) \<Longrightarrow> map itemId (xs[p := x]) = map itemId xs"
  by (simp add: map_update list_update_same_conv)

text \<open>One round of the loop, when the identifiers are distinct.\<close>

lemma convertLoop_step:
  fixes s :: "'w World" and "next" :: "QItem list" and env :: "'w Env"
  assumes d: "distinct (map itemId next)" and p: "p < length next"
  defines "c \<equiv> (next ! p)\<lparr>status := Converting\<rparr>"
  defines "s1 \<equiv> setItems env (next[p := c]) s"
  shows "convertLoop env (p # work) done n next s =
     convertLoop env work (done + 1) n (next[p := settle c (fst (convertBody env c c s1))])
       (setItems env (next[p := settle c (fst (convertBody env c c s1))])
          (setProgress env (percent (done + 1) n) (snd (convertBody env c c s1))))"
proof -
  have idx: "findIndex (\<lambda>m. itemId m = itemId (next ! p)) next = int p"
    using findIndex_distinct [OF d p] .
  show ?thesis
    using p by (simp add: idx Let_def c_def s1_def split: prod.splits)
qed


lemma silent_returnT: "silent (returnT a)"
  by (simp add: silent_def returnT_def)

lemma silent_throwT: "silent (throwT e)"
  by (simp add: silent_def throwT_def)

lemma silent_call: "silent (call op)"
  by (simp add: silent_def call_def split: prod.splits)

lemma silent_callPure: "silent (callPure op)"
  by (simp add: silent_def callPure_def split: prod.splits)

lemma silent_bindT: "silent m \<Longrightarrow> (\<And>a. silent (f a)) \<Longrightarrow> silent (bindT m f)"
  unfolding silent_def bindT_def
  by (auto split: prod.splits sum.splits) (metis snd_conv)+

lemma silent_swallowT: "silent m \<Longrightarrow> silent (swallowT m)"
  unfolding silent_def swallowT_def
  by (auto split: prod.splits sum.splits) (metis snd_conv)+

lemma silent_coreExec: "silent (coreExec env args)"
  by (simp add: silent_def coreExec_def call_def split: prod.splits)

lemma silent_getFF: "silent (getFF env)"
  by (simp add: silent_def getFF_def call_def returnT_def split: prod.splits)

lemmas silent_intros = silent_returnT silent_throwT silent_call silent_callPure silent_bindT
  silent_swallowT silent_coreExec silent_getFF

lemma silent_loadImageBitmap: "silent (loadImageBitmap env f)"
proof -
  have "silent (bindT (call (imageLoad env f)) (\<lambda>_. call (createImageBitmap env f)))"
    by (intro silent_intros)
  moreover have "silent (call (createImageBitmap env f))" by (rule silent_call)
  ultimately show ?thesis
    unfolding silent_def loadImageBitmap_def
    by (auto split: prod.splits sum.splits) (metis snd_conv)+
qed

lemma silent_convertImage: "silent (convertImage env f t q)"
  unfolding convertImage_def Let_def
  by (auto intro!: silent_intros silent_loadImageBitmap split: option.splits)

lemma silent_convertAudio: "silent (convertAudio env f t opts)"
  unfolding convertAudio_def Let_def
  by (auto intro!: silent_intros split: sum.splits prod.splits)

lemma silent_convertVideoToWebM: "silent (convertVideoToWebM env f crf)"
  unfolding convertVideoToWebM_def Let_def
  by (intro silent_intros)

lemma silent_convertBody: "silent (convertBody env it tgt)"
  unfolding convertBody_def Let_def
  by (auto intro!: silent_intros silent_convertImage silent_convertAudio silent_convertVideoToWebM)

lemma convertBody_uiLog: "uiLog (snd (convertBody env it tgt s)) = uiLog s"
  using silent_convertBody [of env it tgt] by (simp add: silent_def)


lemma attempt_fields:
  "itemId (attempt env it s) = itemId it" "selected (attempt env it s) = selected it"
  "itemFile (attempt env it s) = itemFile it" "pdfAction (attempt env it s) = pdfAction it"
  "terminal (status (attempt env it s))"
  using settle_fields [of env "it\<lparr>status := Converting\<rparr>" "it\<lparr>status := Converting\<rparr>" s
      "fst (convertBody env (it\<lparr>status := Converting\<rparr>) (it\<lparr>status := Converting\<rparr>) s)"
      "snd (convertBody env (it\<lparr>status := Converting\<rparr>) (it\<lparr>status := Converting\<rparr>) s)"]
  by (simp_all add: attempt_def terminal_def)

lemma convertLoop_round:
  fixes s :: "'w World" and "next" :: "QItem list" and env :: "'w Env"
  assumes d: "distinct (map itemId next)" and p: "p < length next"
  defines "s1 \<equiv> setItems env (next[p := (next ! p)\<lparr>status := Converting\<rparr>]) s"
  defines "next2 \<equiv> next[p := attempt env (next ! p) s1]"
  shows "\<exists>s2. uiLog s2 = uiLog s1 \<and>
     convertLoop env (p # work) done n next s =
       convertLoop env work (done + 1) n next2 (setItems env next2 (setProgress env (percent (done + 1) n) s2))"
proof -
  let ?c = "(next ! p)\<lparr>status := Converting\<rparr>"
  have "convertLoop env (p # work) done n next s =
       convertLoop env work (done + 1) n next2
         (setItems env next2 (setProgress env (percent (done + 1) n) (snd (convertBody env ?c ?c s1))))"
    unfolding next2_def s1_def attempt_def by (rule convertLoop_step [OF d p])
  moreover have "uiLog (snd (convertBody env ?c ?c s1)) = uiLog s1"
    by (rule convertBody_uiLog)
  ultimately show ?thesis by blast
qed

lemma convertLoop_run:
  fixes s :: "'w World" and "next" :: "QItem list" and env :: "'w Env"
  assumes "distinct (map itemId next)" "distinct work" "\<forall>p \<in> set work. p < length next"
  shows "\<exists>next'. fst (convertLoop env work done n next s) = Inr next'
     \<and> length next' = length next \<and> map itemId next' = map itemId next
     \<and> (\<forall>q < length next. q \<notin> set work \<longrightarrow> next' ! q = next ! q)
     \<and> (\<forall>q \<in> set work. \<exists>sq. next' ! q = attempt env (next ! q) sq)"
  using assms
proof (induction work arbitrary: "next" s "done")
  case Nil
  then show ?case by simp
next
  case (Cons p work)
  from Cons.prems have p: "p < length next" and pw: "p \<notin> set work" and dw: "distinct work"
    and bw: "\<forall>q \<in> set work. q < length next"
    by simp_all
  define s1 where "s1 = setItems env (next[p := (next ! p)\<lparr>status := Converting\<rparr>]) s"
  define next2 where "next2 = next[p := attempt env (next ! p) s1]"
  from convertLoop_round [OF Cons.prems(1) p, where env = env and s = s and work = work and n = n
      and ?done = "done", folded s1_def, folded next2_def]
  obtain s2 where step: "convertLoop env (p # work) done n next s =
       convertLoop env work (done + 1) n next2 (setItems env next2 (setProgress env (percent (done + 1) n) s2))"
    by blast
  have len2: "length next2 = length next" by (simp add: next2_def)
  have id2: "map itemId next2 = map itemId next"
    unfolding next2_def by (rule map_itemId_update [OF p]) (simp add: attempt_fields)
  have d2: "distinct (map itemId next2)" using Cons.prems(1) id2 by simp
  have b2: "\<forall>q \<in> set work. q < length next2" using bw len2 by simp
  from Cons.IH [OF d2 dw b2, where s = "setItems env next2 (setProgress env (percent (done + 1) n) s2)"
      and ?done = "done + 1"]
  obtain next' where ih: "fst (convertLoop env work (done + 1) n next2
        (setItems env next2 (setProgress env (percent (done + 1) n) s2))) = Inr next'"
    "length next' = length next2" "map itemId next' = map itemId next2"
    "\<forall>q < length next2. q \<notin> set work \<longrightarrow> next' ! q = next2 ! q"
    "\<forall>q \<in> set work. \<exists>sq. next' ! q = attempt env (next2 ! q) sq"
    by blast
  have frame: "next' ! q = next ! q" if "q < length next" "q \<notin> set (p # work)" for q
    using that ih(4) len2 by (simp add: next2_def)
  have atp: "next' ! p = attempt env (next ! p) s1"
    using ih(4) p pw len2 by (simp add: next2_def)
  have atw: "\<exists>sq. next' ! q = attempt env (next ! q) sq" if "q \<in> set work" for q
  proof -
    from that pw have "q \<noteq> p" by blast
    then have "next2 ! q = next ! q" by (simp add: next2_def)
    with ih(5) that show ?thesis by metis
  qed
  show ?case
  proof (intro exI [of _ next'] conjI)
    show "fst (convertLoop env (p # work) done n next s) = Inr next'" using step ih(1) by simp
    show "length next' = length next" using ih(2) len2 by simp
    show "map itemId next' = map itemId next" using ih(3) id2 by simp
    show "\<forall>q < length next. q \<notin> set (p # work) \<longrightarrow> next' ! q = next ! q" using frame by blast
    show "\<forall>q \<in> set (p # work). \<exists>sq. next' ! q = attempt env (next ! q) sq"
      using atp atw by auto
  qed
qed


lemma concat_map_upt_Suc:
  "concat (map F [0..<Suc m]) = F 0 @ concat (map (\<lambda>k. F (Suc k)) [0..<m])"
proof -
  have "[0..<Suc m] = 0 # map Suc [0..<m]"
    by (simp add: upt_conv_Cons map_Suc_upt del: upt_Suc)
  then show ?thesis by (simp add: comp_def del: upt_Suc)
qed

lemma convertLoop_trace:
  fixes s :: "'w World" and "next" :: "QItem list" and env :: "'w Env"
  assumes "distinct (map itemId next)" "distinct work" "\<forall>p \<in> set work. p < length next"
  shows "\<exists>A B. uiLog (snd (convertLoop env work done n next s)) =
        uiLog s @ concat (map (\<lambda>k. [SetItems (A k), SetProgress (percent (done + 1 + k) n), SetItems (B k)])
                            [0..<length work])
     \<and> (\<forall>k < length work.
          (\<forall>q < length next. q \<notin> set (take (Suc k) work) \<longrightarrow> A k ! q = next ! q \<and> B k ! q = next ! q)
          \<and> status (A k ! (work ! k)) = Converting
          \<and> (\<forall>j < k. terminal (status (A k ! (work ! j))))
          \<and> (\<forall>j \<le> k. terminal (status (B k ! (work ! j)))))"
  using assms
proof (induction work arbitrary: "next" s "done")
  case Nil
  then show ?case by simp
next
  case (Cons p work)
  from Cons.prems have p: "p < length next" and pw: "p \<notin> set work" and dw: "distinct work"
    and bw: "\<forall>q \<in> set work. q < length next"
    by simp_all
  define next1 where "next1 = next[p := (next ! p)\<lparr>status := Converting\<rparr>]"
  define s1 where "s1 = setItems env next1 s"
  define next2 where "next2 = next[p := attempt env (next ! p) s1]"
  from convertLoop_round [OF Cons.prems(1) p, where env = env and s = s and work = work and n = n
      and ?done = "done", folded next1_def, folded s1_def, folded next2_def]
  obtain s2 where s2: "uiLog s2 = uiLog s1"
    and step: "convertLoop env (p # work) done n next s =
       convertLoop env work (done + 1) n next2 (setItems env next2 (setProgress env (percent (done + 1) n) s2))"
    by blast
  define s3 where "s3 = setItems env next2 (setProgress env (percent (done + 1) n) s2)"
  have log3: "uiLog s3 = uiLog s @ [SetItems next1, SetProgress (percent (done + 1 + 0) n), SetItems next2]"
    by (simp add: s3_def setItems_def setProgress_def s2 s1_def)
  have len2: "length next2 = length next" by (simp add: next2_def)
  have id2: "map itemId next2 = map itemId next"
    unfolding next2_def by (rule map_itemId_update [OF p]) (simp add: attempt_fields)
  have d2: "distinct (map itemId next2)" using Cons.prems(1) id2 by simp
  have b2: "\<forall>q \<in> set work. q < length next2" using bw len2 by simp
  from Cons.IH [OF d2 dw b2, where s = s3 and ?done = "done + 1"]
  obtain A' B' where log': "uiLog (snd (convertLoop env work (done + 1) n next2 s3)) =
        uiLog s3 @ concat (map (\<lambda>k. [SetItems (A' k), SetProgress (percent (done + 1 + 1 + k) n), SetItems (B' k)])
                            [0..<length work])"
    and ih: "\<And>k. k < length work \<Longrightarrow>
          (\<forall>q < length next2. q \<notin> set (take (Suc k) work) \<longrightarrow> A' k ! q = next2 ! q \<and> B' k ! q = next2 ! q)
          \<and> status (A' k ! (work ! k)) = Converting
          \<and> (\<forall>j < k. terminal (status (A' k ! (work ! j))))
          \<and> (\<forall>j \<le> k. terminal (status (B' k ! (work ! j))))"
    by blast
  define A where "A k = (case k of 0 \<Rightarrow> next1 | Suc k' \<Rightarrow> A' k')" for k
  define B where "B k = (case k of 0 \<Rightarrow> next2 | Suc k' \<Rightarrow> B' k')" for k
  have t2: "terminal (status (next2 ! p))" using p by (simp add: next2_def attempt_fields)
  have log: "uiLog (snd (convertLoop env (p # work) done n next s)) =
        uiLog s @ concat (map (\<lambda>k. [SetItems (A k), SetProgress (percent (done + 1 + k) n), SetItems (B k)])
                            [0..<length (p # work)])"
    unfolding step s3_def [symmetric] log' log3
    by (simp add: concat_map_upt_Suc A_def B_def del: upt_Suc)
  have props: "(\<forall>q < length next. q \<notin> set (take (Suc k) (p # work)) \<longrightarrow> A k ! q = next ! q \<and> B k ! q = next ! q)
          \<and> status (A k ! ((p # work) ! k)) = Converting
          \<and> (\<forall>j < k. terminal (status (A k ! ((p # work) ! j))))
          \<and> (\<forall>j \<le> k. terminal (status (B k ! ((p # work) ! j))))"
    if k: "k < length (p # work)" for k
  proof (cases k)
    case 0
    then show ?thesis using p t2 by (simp add: A_def B_def next1_def next2_def)
  next
    case (Suc k')
    with k have k': "k' < length work" by simp
    note I = ih [OF k']
    have keep: "A' k' ! p = next2 ! p" "B' k' ! p = next2 ! p"
      using I p pw len2 by (auto dest: in_set_takeD)
    have 1: "\<forall>q < length next. q \<notin> set (take (Suc k) (p # work)) \<longrightarrow> A k ! q = next ! q \<and> B k ! q = next ! q"
      using I len2 by (simp add: Suc A_def B_def next2_def)
    have 2: "status (A k ! ((p # work) ! k)) = Converting"
      using I by (simp add: Suc A_def)
    have 3: "terminal (status (A k ! ((p # work) ! j)))" if "j < k" for j
      using that I keep(1) t2 by (cases j) (simp_all add: Suc A_def)
    have 4: "terminal (status (B k ! ((p # work) ! j)))" if "j \<le> k" for j
      using that I keep(2) t2 by (cases j) (simp_all add: Suc B_def)
    from 1 2 3 4 show ?thesis by blast
  qed
  from log props show ?case by blast
qed

lemma selectedPositions_set: "set (selectedPositions xs) = {p. p < length xs \<and> selected (xs ! p)}"
  by (auto simp: selectedPositions_def)

lemma selectedPositions_distinct: "distinct (selectedPositions xs)"
  by (simp add: selectedPositions_def)

lemma selectedPositions_sorted: "sorted (selectedPositions xs)"
  by (simp add: selectedPositions_def sorted_wrt_filter)

lemma convertAll_items:
  fixes s :: "'w World" and env :: "'w Env"
  assumes "distinct (map itemId items)"
  shows "\<exists>items'. fst (convertAll env items s) = Inr items' \<and> length items' = length items
     \<and> map itemId items' = map itemId items
     \<and> (\<forall>j < length items. \<not> selected (items ! j) \<longrightarrow> items' ! j = items ! j)
     \<and> (\<forall>j < length items. selected (items ! j) \<longrightarrow> (\<exists>sq. items' ! j = attempt env (items ! j) sq))"
proof -
  have b: "\<forall>p \<in> set (selectedPositions items). p < length items"
    by (simp add: selectedPositions_set)
  from convertLoop_run [OF assms selectedPositions_distinct b, where env = env
      and s = "setProgress env 0 s" and ?done = 0 and n = "length (selectedPositions items)"]
  show ?thesis
    unfolding convertAll_def Let_def by (simp add: selectedPositions_set) blast
qed

lemma progressValues_rounds:
  "progressValues (concat (map (\<lambda>k. [SetItems (A k), SetProgress (f k), SetItems (B k)]) ks)) = map f ks"
  by (induction ks) simp_all

lemma itemSnapshots_rounds:
  "itemSnapshots (concat (map (\<lambda>k. [SetItems (A k), SetProgress (f k), SetItems (B k)]) ks))
     = concat (map (\<lambda>k. [A k, B k]) ks)"
  by (induction ks) simp_all

lemma convertAll_log:
  fixes s :: "'w World" and env :: "'w Env"
  assumes "distinct (map itemId items)"
  shows "\<exists>A B. uiLog (snd (convertAll env items s)) =
        uiLog s @ SetProgress 0 #
          concat (map (\<lambda>k. [SetItems (A k), SetProgress (percent (k + 1) (length (selectedPositions items))),
                             SetItems (B k)])
                    [0..<length (selectedPositions items)])
     \<and> (\<forall>k < length (selectedPositions items).
          (\<forall>q < length items. q \<notin> set (take (Suc k) (selectedPositions items))
              \<longrightarrow> A k ! q = items ! q \<and> B k ! q = items ! q)
          \<and> status (A k ! (selectedPositions items ! k)) = Converting
          \<and> (\<forall>j < k. terminal (status (A k ! (selectedPositions items ! j))))
          \<and> (\<forall>j \<le> k. terminal (status (B k ! (selectedPositions items ! j)))))"
proof -
  have b: "\<forall>p \<in> set (selectedPositions items). p < length items"
    by (simp add: selectedPositions_set)
  from convertLoop_trace [OF assms selectedPositions_distinct b, where env = env
      and s = "setProgress env 0 s" and ?done = 0 and n = "length (selectedPositions items)"]
  show ?thesis
    unfolding convertAll_def Let_def by (simp add: setProgress_def add.commute)
qed

lemma convertAll_progressValues:
  fixes s :: "'w World" and env :: "'w Env"
  assumes "distinct (map itemId items)"
  shows "progressValues (uiLog (snd (convertAll env items s))) =
     progressValues (uiLog s) @ 0 #
       map (\<lambda>k. percent (k + 1) (length (selectedPositions items))) [0..<length (selectedPositions items)]"
proof -
  from convertAll_log [OF assms, of env s] obtain A B where
    "uiLog (snd (convertAll env items s)) =
        uiLog s @ SetProgress 0 #
          concat (map (\<lambda>k. [SetItems (A k), SetProgress (percent (k + 1) (length (selectedPositions items))),
                             SetItems (B k)])
                    [0..<length (selectedPositions items)])"
    by blast
  then show ?thesis by (simp add: progressValues_append progressValues_rounds)
qed

lemma sorted_percents: "sorted (0 # map (\<lambda>k. percent (k + 1) n) [0..<m])"
proof -
  have "sorted_wrt (\<lambda>x y. percent (x + 1) n \<le> percent (y + 1) n) [0..<m]"
    by (rule sorted_wrt_mono_rel [OF _ sorted_upt [of 0 m]]) (simp add: percent_mono)
  then have "sorted (map (\<lambda>k. percent (k + 1) n) [0..<m])" by (simp only: sorted_map)
  then show ?thesis by (simp add: percent_nonneg)
qed

text \<open>
  The run of the loop written out round by round, when the identifiers are distinct:
  \<open>A k\<close> and \<open>B k\<close> are the item lists published before and after conversion \<open>k\<close>,
  \<open>S k\<close> and \<open>T k\<close> the states in which that conversion starts and ends, \<open>R k\<close> its result.
\<close>

lemma convertLoop_chain:
  fixes s :: "'w World" and "next" :: "QItem list" and env :: "'w Env"
  assumes "distinct (map itemId next)" "distinct work" "\<forall>p \<in> set work. p < length next"
  shows "\<exists>A B S T R.
     (\<forall>k < length work.
         A k = (if k = 0 then next else B (k - 1))
                 [work ! k := ((if k = 0 then next else B (k - 1)) ! (work ! k))\<lparr>status := Converting\<rparr>]
       \<and> S k = setItems env (A k)
                 (if k = 0 then s
                  else setItems env (B (k - 1)) (setProgress env (percent (done + k) n) (T (k - 1))))
       \<and> convertBody env (A k ! (work ! k)) (A k ! (work ! k)) (S k) = (R k, T k)
       \<and> B k = (A k)[work ! k := settle (A k ! (work ! k)) (R k)]
       \<and> uiLog (T k) =
           uiLog s @ concat (map (\<lambda>j. [SetItems (A j), SetProgress (percent (done + 1 + j) n), SetItems (B j)])
                               [0..<k]) @ [SetItems (A k)]
       \<and> (\<forall>q < length next. q \<notin> set (take (Suc k) work) \<longrightarrow> B k ! q = next ! q)
       \<and> length (B k) = length next \<and> map itemId (B k) = map itemId next)
     \<and> convertLoop env work done n next s =
         (if work = [] then (Inr next, s)
          else (Inr (B (length work - 1)),
                setItems env (B (length work - 1))
                  (setProgress env (percent (done + length work) n) (T (length work - 1)))))"
  using assms
proof (induction work arbitrary: "next" s "done")
  case Nil
  then show ?case by simp
next
  case (Cons p work)
  from Cons.prems have p: "p < length next" and pw: "p \<notin> set work" and dw: "distinct work"
    and bw: "\<forall>q \<in> set work. q < length next"
    by simp_all
  define c where "c = (next ! p)\<lparr>status := Converting\<rparr>"
  define next1 where "next1 = next[p := c]"
  define s1 where "s1 = setItems env next1 s"
  define r where "r = fst (convertBody env c c s1)"
  define t where "t = snd (convertBody env c c s1)"
  define next2 where "next2 = next1[p := settle c r]"
  define s3 where "s3 = setItems env next2 (setProgress env (percent (done + 1) n) t)"
  have n1p: "next1 ! p = c" using p by (simp add: next1_def)
  have body: "convertBody env c c s1 = (r, t)" by (simp add: r_def t_def)
  have step: "convertLoop env (p # work) done n next s = convertLoop env work (done + 1) n next2 s3"
    using convertLoop_step [OF Cons.prems(1) p, where env = env and s = s and work = work
        and ?done = "done" and n = n]
    by (simp add: c_def next1_def s1_def r_def t_def next2_def s3_def)
  have "itemId c = itemId (next ! p)" by (simp add: c_def)
  then have sf: "itemId (settle c r) = itemId (next ! p)" using settle_fields [OF body] by simp
  have len2: "length next2 = length next" by (simp add: next2_def next1_def)
  have n2: "next2 = next[p := settle c r]" by (simp add: next2_def next1_def)
  have id2: "map itemId next2 = map itemId next"
    unfolding n2 by (rule map_itemId_update [OF p]) (rule sf)
  have d2: "distinct (map itemId next2)" using Cons.prems(1) id2 by simp
  have b2: "\<forall>q \<in> set work. q < length next2" using bw len2 by simp
  have logt: "uiLog t = uiLog s @ [SetItems next1]"
    using convertBody_uiLog [of env c c s1] by (simp add: t_def s1_def setItems_def)
  have log3: "uiLog s3 = uiLog s @ [SetItems next1, SetProgress (percent (done + 1) n), SetItems next2]"
    by (simp add: s3_def setItems_def setProgress_def logt)
  from Cons.IH [OF d2 dw b2, where s = s3 and ?done = "done + 1"]
  obtain A' B' S' T' R' where
    ih: "\<And>k. k < length work \<Longrightarrow>
         A' k = (if k = 0 then next2 else B' (k - 1))
                 [work ! k := ((if k = 0 then next2 else B' (k - 1)) ! (work ! k))\<lparr>status := Converting\<rparr>]
       \<and> S' k = setItems env (A' k)
                 (if k = 0 then s3
                  else setItems env (B' (k - 1)) (setProgress env (percent (done + 1 + k) n) (T' (k - 1))))
       \<and> convertBody env (A' k ! (work ! k)) (A' k ! (work ! k)) (S' k) = (R' k, T' k)
       \<and> B' k = (A' k)[work ! k := settle (A' k ! (work ! k)) (R' k)]
       \<and> uiLog (T' k) =
           uiLog s3 @ concat (map (\<lambda>j. [SetItems (A' j), SetProgress (percent (done + 1 + 1 + j) n), SetItems (B' j)])
                               [0..<k]) @ [SetItems (A' k)]
       \<and> (\<forall>q < length next2. q \<notin> set (take (Suc k) work) \<longrightarrow> B' k ! q = next2 ! q)
       \<and> length (B' k) = length next2 \<and> map itemId (B' k) = map itemId next2"
    and fin': "convertLoop env work (done + 1) n next2 s3 =
         (if work = [] then (Inr next2, s3)
          else (Inr (B' (length work - 1)),
                setItems env (B' (length work - 1))
                  (setProgress env (percent (done + 1 + length work) n) (T' (length work - 1)))))"
    by blast
  define A where "A k = (if k = 0 then next1 else A' (k - 1))" for k
  define B where "B k = (if k = 0 then next2 else B' (k - 1))" for k
  define S where "S k = (if k = 0 then s1 else S' (k - 1))" for k
  define T where "T k = (if k = 0 then t else T' (k - 1))" for k
  define R where "R k = (if k = 0 then r else R' (k - 1))" for k
  have zero: "A 0 = next1" "B 0 = next2" "S 0 = s1" "T 0 = t" "R 0 = r"
    by (simp_all add: A_def B_def S_def T_def R_def)
  have suc: "A (Suc k) = A' k" "B (Suc k) = B' k" "S (Suc k) = S' k" "T (Suc k) = T' k" "R (Suc k) = R' k" for k
    by (simp_all add: A_def B_def S_def T_def R_def)
  have Bprev: "(if k = 0 then next2 else B' (k - 1)) = B k" for k
    by (simp add: B_def)
  have rounds: "concat (map (\<lambda>j. [SetItems (A j), SetProgress (percent (done + 1 + j) n), SetItems (B j)]) [0..<Suc k])
      = [SetItems next1, SetProgress (percent (done + 1) n), SetItems next2]
        @ concat (map (\<lambda>j. [SetItems (A' j), SetProgress (percent (done + 1 + 1 + j) n), SetItems (B' j)]) [0..<k])" for k
    by (simp add: concat_map_upt_Suc zero suc del: upt_Suc)
  have props: "A k = (if k = 0 then next else B (k - 1))
                 [(p # work) ! k := ((if k = 0 then next else B (k - 1)) ! ((p # work) ! k))\<lparr>status := Converting\<rparr>]
       \<and> S k = setItems env (A k)
                 (if k = 0 then s
                  else setItems env (B (k - 1)) (setProgress env (percent (done + k) n) (T (k - 1))))
       \<and> convertBody env (A k ! ((p # work) ! k)) (A k ! ((p # work) ! k)) (S k) = (R k, T k)
       \<and> B k = (A k)[(p # work) ! k := settle (A k ! ((p # work) ! k)) (R k)]
       \<and> uiLog (T k) =
           uiLog s @ concat (map (\<lambda>j. [SetItems (A j), SetProgress (percent (done + 1 + j) n), SetItems (B j)])
                               [0..<k]) @ [SetItems (A k)]
       \<and> (\<forall>q < length next. q \<notin> set (take (Suc k) (p # work)) \<longrightarrow> B k ! q = next ! q)
       \<and> length (B k) = length next \<and> map itemId (B k) = map itemId next"
    if k: "k < length (p # work)" for k
  proof (cases k)
    case 0
    have "\<forall>q < length next. q \<notin> set (take (Suc 0) (p # work)) \<longrightarrow> next2 ! q = next ! q"
      by (simp add: n2)
    then show ?thesis
      unfolding 0 zero
      using n1p body logt len2 id2 p by (simp add: s1_def next2_def) (simp add: next1_def c_def)
  next
    case (Suc k')
    with k have k': "k' < length work" by simp
    note I = ih [OF k']
    note I1 = I [THEN conjunct1]
    note I2 = I [THEN conjunct2, THEN conjunct1]
    note I3 = I [THEN conjunct2, THEN conjunct2, THEN conjunct1]
    note I4 = I [THEN conjunct2, THEN conjunct2, THEN conjunct2, THEN conjunct1]
    note I5 = I [THEN conjunct2, THEN conjunct2, THEN conjunct2, THEN conjunct2, THEN conjunct1]
    note I6 = I [THEN conjunct2, THEN conjunct2, THEN conjunct2, THEN conjunct2, THEN conjunct2, THEN conjunct1]
    note I7 = I [THEN conjunct2, THEN conjunct2, THEN conjunct2, THEN conjunct2, THEN conjunct2, THEN conjunct2, THEN conjunct1]
      I [THEN conjunct2, THEN conjunct2, THEN conjunct2, THEN conjunct2, THEN conjunct2, THEN conjunct2, THEN conjunct2]
    have a: "A (Suc k') = (B k')[work ! k' := (B k' ! (work ! k'))\<lparr>status := Converting\<rparr>]"
      unfolding suc B_def by (rule I1)
    have X: "(if k' = 0 then s3
              else setItems env (B' (k' - 1)) (setProgress env (percent (done + 1 + k') n) (T' (k' - 1))))
        = setItems env (B k') (setProgress env (percent (done + Suc k') n) (T k'))"
      by (cases k') (simp_all add: B_def T_def s3_def)
    have b: "S (Suc k') = setItems env (A (Suc k'))
        (setItems env (B k') (setProgress env (percent (done + Suc k') n) (T k')))"
      unfolding suc I2 X ..
    have cc: "convertBody env (A (Suc k') ! (work ! k')) (A (Suc k') ! (work ! k')) (S (Suc k')) = (R (Suc k'), T (Suc k'))"
      unfolding suc by (rule I3)
    have dd: "B (Suc k') = (A (Suc k'))[work ! k' := settle (A (Suc k') ! (work ! k')) (R (Suc k'))]"
      unfolding suc by (rule I4)
    have e: "uiLog (T (Suc k')) =
           uiLog s @ concat (map (\<lambda>j. [SetItems (A j), SetProgress (percent (done + 1 + j) n), SetItems (B j)])
                               [0..<Suc k']) @ [SetItems (A (Suc k'))]"
      unfolding rounds suc I5 log3 by simp
    have f: "\<forall>q < length next. q \<notin> set (take (Suc (Suc k')) (p # work)) \<longrightarrow> B (Suc k') ! q = next ! q"
      unfolding suc using I6 len2 by (simp add: n2)
    have g: "length (B (Suc k')) = length next" "map itemId (B (Suc k')) = map itemId next"
      unfolding suc using I7 len2 id2 by simp_all
    have nz: "(if Suc k' = 0 then next else B (Suc k' - 1)) = B k'" by simp
    have nz': "(if Suc k' = 0 then s
                  else setItems env (B (Suc k' - 1)) (setProgress env (percent (done + Suc k') n) (T (Suc k' - 1))))
        = setItems env (B k') (setProgress env (percent (done + Suc k') n) (T k'))" by simp
    have ix: "(p # work) ! Suc k' = work ! k'" by simp
    show ?thesis
      unfolding Suc nz nz' ix
      using a b cc dd e f g by (intro conjI)
  qed
  have fin: "convertLoop env (p # work) done n next s =
         (Inr (B (length (p # work) - 1)),
                setItems env (B (length (p # work) - 1))
                  (setProgress env (percent (done + length (p # work)) n) (T (length (p # work) - 1))))"
  proof (cases work)
    case Nil
    then show ?thesis using step fin' by (simp add: zero s3_def)
  next
    case (Cons q qs)
    then have "length work - 1 = length qs" "length (p # work) - 1 = Suc (length qs)" by simp_all
    then show ?thesis using step fin' Cons by (simp add: suc)
  qed
  have ne: "(p # work = []) = False" by simp
  show ?case
    apply (rule exI [of _ A], rule exI [of _ B], rule exI [of _ S], rule exI [of _ T], rule exI [of _ R])
    apply (rule conjI)
     apply (intro allI impI)
     apply (rule props)
     apply assumption
    apply (simp only: ne if_False)
    apply (rule fin)
    done
qed

lemma chain_keeps:
  fixes A B :: "nat \<Rightarrow> 'a list"
  assumes A: "\<And>k. k < n \<Longrightarrow> A k = (if k = 0 then items else B (k - 1))[work ! k := X k]"
    and B: "\<And>k. k < n \<Longrightarrow> B k = (A k)[work ! k := Y k]"
    and d: "distinct work" and n: "n = length work"
  shows "j \<le> k \<Longrightarrow> k < n \<Longrightarrow> B k ! (work ! j) = B j ! (work ! j)"
proof (induction k)
  case 0
  then show ?case by simp
next
  case (Suc k)
  show ?case
  proof (cases "j = Suc k")
    case True
    then show ?thesis by simp
  next
    case False
    with Suc.prems have jk: "j \<le> k" and k: "k < n" by simp_all
    have ne: "work ! Suc k \<noteq> work ! j"
      using d Suc.prems jk n by (simp add: nth_eq_iff_index_eq)
    have "B (Suc k) ! (work ! j) = A (Suc k) ! (work ! j)"
      unfolding B [OF Suc.prems(2)] using ne by simp
    also have "\<dots> = B k ! (work ! j)"
      unfolding A [OF Suc.prems(2)] using ne by simp
    also have "\<dots> = B j ! (work ! j)" by (rule Suc.IH [OF jk k])
    finally show ?thesis .
  qed
qed

section \<open>A run on three files\<close>

lemma demo_targets:
  "defaultTarget (mkFile ''photo.png'' ''image/png'') = ''image/jpeg''"
  "defaultTarget (mkFile ''notes.txt'' ''text/plain'') = ''image/webp''"
  "defaultTarget (mkFile ''doc.pdf'' ''application/pdf'') = ''application/pdf''"
  by code_simp+

lemma demo_classes:
  "isPDF (mkFile ''photo.png'' ''image/png'') = False"
  "isHeic (mkFile ''photo.png'' ''image/png'') = False"
  "startsWith (ftype (mkFile ''photo.png'' ''image/png'')) ''image/'' = True"
  "isPDF (mkFile ''notes.txt'' ''text/plain'') = False"
  "isHeic (mkFile ''notes.txt'' ''text/plain'') = False"
  "startsWith (ftype (mkFile ''notes.txt'' ''text/plain'')) ''image/'' = False"
  "isAudio (mkFile ''notes.txt'' ''text/plain'') = False"
  "isVideo (mkFile ''notes.txt'' ''text/plain'') = False"
  "isPDF (mkFile ''doc.pdf'' ''application/pdf'') = True"
  by code_simp+

lemma demo_percents: "percent 1 3 = 33" "percent 2 3 = 67" "percent 3 3 = 100" "percent 1 1 = 100"
  by code_simp+

lemma demo_percents_Suc:
  "percent (Suc 0) (Suc (Suc (Suc 0))) = 33" "percent (Suc (Suc 0)) (Suc (Suc (Suc 0))) = 67"
  "percent (Suc (Suc (Suc 0))) (Suc (Suc (Suc 0))) = 100" "percent (Suc 0) (Suc 0) = 100"
  using demo_percents by (simp_all add: numeral_3_eq_3 numeral_2_eq_2)

lemma demo_selected: "selectedPositions demoItems = [0, 1, 2]"
  by code_simp

lemma demoEnv_ops:
  "fileArrayBuffer demoEnv f w = (Inr [1, 2, 3], w)"
  "pdfLoad demoEnv d w = (Inr [[1], [2], [3]], w)"
  "pdfSave demoEnv doc w = (Inr (concat doc), w)"
  "renderProgress demoEnv v w = w" "renderItems demoEnv xs w = w"
  "renderProgress goneEnv v w = w" "renderItems goneEnv xs w = w"
  by (simp_all add: demoEnv_def goneEnv_def)

lemma demo_convertImage:
  "convertImage demoEnv (mkFile ''photo.png'' ''image/png'') t q s = (Inr \<lparr>blobData = [8], blobType = t\<rparr>, s)"
  by (simp add: convertImage_def loadImageBitmap_def bindT_def call_def returnT_def demoEnv_def mkFile_def)

lemma demo_bodies:
  "convertBody demoEnv (photoItem\<lparr>status := st\<rparr>) tgt s =
     (Inr (tgt\<lparr>outBlob := Some \<lparr>blobData = [8], blobType = ''image/jpeg''\<rparr>, status := Done\<rparr>), s)"
  "convertBody demoEnv (notesItem\<lparr>status := st\<rparr>) tgt s = (Inl (newError ''Unsupported type''), s)"
  "convertBody demoEnv (docItem\<lparr>status := st\<rparr>) tgt s =
     (Inr (tgt\<lparr>outBlob := Some \<lparr>blobData = [1, 2, 3], blobType = ''application/pdf''\<rparr>, status := Done\<rparr>), s)"
  by (simp_all add: convertBody_def photoItem_def notesItem_def docItem_def newItem_def demo_classes
      demo_targets demo_convertImage bindT_def returnT_def throwT_def call_def demoEnv_ops)

lemma demo_ids:
  "itemId photoItem = ''1700000000000-0-k3j9x2''" "itemId notesItem = ''1700000000000-1-k3j9x2''"
  "itemId docItem = ''1700000000000-2-k3j9x2''"
  by (simp_all add: photoItem_def notesItem_def docItem_def newItem_def)

lemma demo_run:
  "fst (convertAll demoEnv demoItems demoWorld) =
     Inr [photoItem\<lparr>status := Done, outBlob := Some \<lparr>blobData = [8], blobType = ''image/jpeg''\<rparr>\<rparr>,
          notesItem\<lparr>status := Error, errorMsg := Some ''Unsupported type''\<rparr>,
          docItem\<lparr>status := Done, outBlob := Some \<lparr>blobData = [1, 2, 3], blobType = ''application/pdf''\<rparr>\<rparr>]"
  "progressValues (uiLog (snd (convertAll demoEnv demoItems demoWorld))) = [0, 33, 67, 100]"
  by (simp_all add: convertAll_def demo_selected [unfolded demoItems_def] Let_def demoItems_def demo_ids demo_bodies settle_def
      errText_def newError_def setItems_def setProgress_def demoWorld_def demo_percents_Suc demoEnv_ops)

section \<open>Failure isolation\<close>

lemma attempt_status_irrelevant: "attempt env (it\<lparr>status := x\<rparr>) s = attempt env it s"
  by (simp add: attempt_def)

lemma attempt_throws:
  assumes "\<forall>tgt s. fst (convertBody env it tgt s) = Inl e"
  shows "attempt env it sq = it\<lparr>status := Error, errorMsg := Some (errText e)\<rparr>"
  using assms by (simp add: attempt_def convertBody_status_irrelevant settle_def)

lemma attempt_returns:
  assumes "\<forall>tgt s. \<exists>m. fst (convertBody env it tgt s) = Inr m"
  shows "status (attempt env it sq) = Done"
proof -
  let ?c = "it\<lparr>status := Converting\<rparr>"
  from assms obtain m where "fst (convertBody env it ?c sq) = Inr m" by blast
  then have f: "fst (convertBody env ?c ?c sq) = Inr m"
    by (simp add: convertBody_status_irrelevant)
  then have m: "convertBody env ?c ?c sq = (Inr m, snd (convertBody env ?c ?c sq))"
    by (simp add: prod_eq_iff)
  from convertBody_Inr(1) [OF m] show ?thesis by (simp add: attempt_def settle_def f)
qed

text \<open>
  C1. Failure isolation. In a queue with distinct identifiers, let the selected item
  \<open>k\<close> be one whose conversion throws \<open>e\<close> whenever it is run, and let the conversion
  of every other selected item return whenever it is run. Then \<open>convertAll\<close> completes,
  every other selected item has status \<open>done\<close>, item \<open>k\<close> has status \<open>error\<close> and its
  error field holds \<open>err?.message || String(err)\<close>, which is the message of \<open>e\<close> when
  it has a non-empty one; items that are not selected are untouched, and the last
  progress published is 100.
\<close>

theorem convertAll_failure_isolation:
  fixes env :: "'w Env" and s :: "'w World"
  assumes ids: "distinct (map itemId items)"
    and k: "k < length items" "selected (items ! k)"
    and bad: "\<forall>tgt s. fst (convertBody env (items ! k) tgt s) = Inl e"
    and good: "\<forall>j < length items. j \<noteq> k \<and> selected (items ! j) \<longrightarrow>
                 (\<forall>tgt s. \<exists>m. fst (convertBody env (items ! j) tgt s) = Inr m)"
  shows "\<exists>items'. fst (convertAll env items s) = Inr items' \<and> length items' = length items
     \<and> (\<forall>j < length items. j \<noteq> k \<and> selected (items ! j) \<longrightarrow> status (items' ! j) = Done)
     \<and> status (items' ! k) = Error \<and> errorMsg (items' ! k) = Some (errText e)
     \<and> (\<forall>m. message e = Some m \<and> m \<noteq> [] \<longrightarrow> errorMsg (items' ! k) = Some m)
     \<and> (\<forall>j < length items. \<not> selected (items ! j) \<longrightarrow> items' ! j = items ! j)
     \<and> last (progressValues (uiLog (snd (convertAll env items s)))) = 100"
proof -
  from convertAll_items [OF ids, of env s] obtain items' where
    r: "fst (convertAll env items s) = Inr items'" and len: "length items' = length items"
    and unsel: "\<forall>j < length items. \<not> selected (items ! j) \<longrightarrow> items' ! j = items ! j"
    and sel: "\<forall>j < length items. selected (items ! j) \<longrightarrow> (\<exists>sq. items' ! j = attempt env (items ! j) sq)"
    by blast
  from sel k obtain sq where "items' ! k = attempt env (items ! k) sq" by blast
  then have atk: "items' ! k = (items ! k)\<lparr>status := Error, errorMsg := Some (errText e)\<rparr>"
    using attempt_throws [OF bad] by simp
  have others: "status (items' ! j) = Done" if "j < length items" "j \<noteq> k" "selected (items ! j)" for j
  proof -
    from sel that obtain sq where "items' ! j = attempt env (items ! j) sq" by blast
    moreover from good that have "\<forall>tgt s. \<exists>m. fst (convertBody env (items ! j) tgt s) = Inr m" by blast
    ultimately show ?thesis using attempt_returns by simp
  qed
  have msg: "errorMsg (items' ! k) = Some m" if "message e = Some m" "m \<noteq> []" for m
    using that atk by (simp add: errText_def)
  define n where "n = length (selectedPositions items)"
  have "k \<in> set (selectedPositions items)" using k by (simp add: selectedPositions_set)
  then have n: "0 < n" unfolding n_def by (cases "selectedPositions items") auto
  have "progressValues (uiLog (snd (convertAll env items s))) =
      progressValues (uiLog s) @ 0 # map (\<lambda>k. percent (k + 1) n) [0..<n]"
    unfolding n_def by (rule convertAll_progressValues [OF ids])
  moreover have "last (progressValues (uiLog s) @ 0 # map (\<lambda>k. percent (k + 1) n) [0..<n]) = percent n n"
    using n by (cases n) (simp_all add: last_map del: upt_Suc)
  ultimately have prog: "last (progressValues (uiLog (snd (convertAll env items s)))) = 100"
    using percent_all [OF n] by simp
  show ?thesis
    using r len others atk msg unsel prog by (intro exI [of _ items']) simp
qed


lemma demo_distinct: "distinct (map itemId demoItems)"
  by (simp add: demoItems_def demo_ids)

lemma demo_selected_all: "selected photoItem" "selected notesItem" "selected docItem"
  by (simp_all add: photoItem_def notesItem_def docItem_def newItem_def)

theorem convertAll_failure_isolation_witness:
  "distinct (map itemId demoItems) \<and> (1::nat) < length demoItems \<and> selected (demoItems ! 1)
   \<and> fst (convertBody demoEnv (demoItems ! 1) docItem demoWorld) = Inl (newError ''Unsupported type'')
   \<and> fst (convertBody demoEnv (demoItems ! 0) docItem demoWorld)
       = Inr (docItem\<lparr>outBlob := Some \<lparr>blobData = [8], blobType = ''image/jpeg''\<rparr>, status := Done\<rparr>)
   \<and> (\<exists>items'. fst (convertAll demoEnv demoItems demoWorld) = Inr items' \<and> length items' = 3
        \<and> status (items' ! 0) = Done \<and> status (items' ! 2) = Done
        \<and> status (items' ! 1) = Error \<and> errorMsg (items' ! 1) = Some ''Unsupported type'')
   \<and> last (progressValues (uiLog (snd (convertAll demoEnv demoItems demoWorld)))) = 100"
proof -
  note bodies = demo_bodies [unfolded convertBody_status_irrelevant]
  have nth: "demoItems ! 0 = photoItem" "demoItems ! 1 = notesItem" "demoItems ! 2 = docItem"
    "length demoItems = 3" "demoItems ! Suc 0 = notesItem"
    by (simp_all add: demoItems_def)
  have h1: "(1::nat) < length demoItems" "selected (demoItems ! 1)"
    by (simp_all add: nth demo_selected_all)
  have bad: "\<forall>tgt s. fst (convertBody demoEnv (demoItems ! 1) tgt s) = Inl (newError ''Unsupported type'')"
    by (simp add: nth bodies)
  have good: "\<forall>j < length demoItems. j \<noteq> 1 \<and> selected (demoItems ! j) \<longrightarrow>
      (\<forall>tgt s. \<exists>m. fst (convertBody demoEnv (demoItems ! j) tgt s) = Inr m)"
  proof (intro allI impI)
    fix j tgt and s :: "unit World"
    assume "j < length demoItems" "j \<noteq> 1 \<and> selected (demoItems ! j)"
    then have "j = 0 \<or> j = 2" by (auto simp: nth)
    then show "\<exists>m. fst (convertBody demoEnv (demoItems ! j) tgt s) = Inr m"
      by (auto simp: nth bodies)
  qed
  have etext: "errText (newError ''Unsupported type'') = ''Unsupported type''"
    by (simp add: errText_def newError_def)
  from convertAll_failure_isolation [OF demo_distinct h1 bad good, of demoWorld]
  obtain items' where r: "fst (convertAll demoEnv demoItems demoWorld) = Inr items'"
    "length items' = length demoItems"
    "\<forall>j < length demoItems. j \<noteq> 1 \<and> selected (demoItems ! j) \<longrightarrow> status (items' ! j) = Done"
    "status (items' ! 1) = Error" "errorMsg (items' ! 1) = Some (errText (newError ''Unsupported type''))"
    and prog: "last (progressValues (uiLog (snd (convertAll demoEnv demoItems demoWorld)))) = 100"
    by blast
  have "status (items' ! 0) = Done" "status (items' ! 2) = Done"
    using r(3) by (simp_all add: nth demo_selected_all)
  with r have res: "\<exists>items'. fst (convertAll demoEnv demoItems demoWorld) = Inr items' \<and> length items' = 3
        \<and> status (items' ! 0) = Done \<and> status (items' ! 2) = Done
        \<and> status (items' ! 1) = Error \<and> errorMsg (items' ! 1) = Some ''Unsupported type''"
    by (simp add: etext nth)
  have b1: "fst (convertBody demoEnv (demoItems ! 1) docItem demoWorld) = Inl (newError ''Unsupported type'')"
    using bad by blast
  have b0: "fst (convertBody demoEnv (demoItems ! 0) docItem demoWorld)
       = Inr (docItem\<lparr>outBlob := Some \<lparr>blobData = [8], blobType = ''image/jpeg''\<rparr>, status := Done\<rparr>)"
    by (simp add: nth bodies)
  from demo_distinct h1 b1 b0 res prog show ?thesis by (intro conjI)
qed

section \<open>Progress and the order of processing\<close>

lemma nth_notin_take:
  assumes "distinct xs" "j < length xs" "k < j"
  shows "xs ! j \<notin> set (take (Suc k) xs)"
proof
  assume "xs ! j \<in> set (take (Suc k) xs)"
  then obtain i where i: "i < length (take (Suc k) xs)" "take (Suc k) xs ! i = xs ! j"
    by (auto simp: in_set_conv_nth)
  then have "i < Suc k" "i < length xs" "xs ! i = xs ! j" by simp_all
  with assms have "i = j" by (simp add: nth_eq_iff_index_eq)
  with \<open>i < Suc k\<close> assms(3) show False by simp
qed

text \<open>
  The rounding is the one of binary64 numbers: with 23 of 40 items completed the exact
  percentage is 57.5, the product computed in binary64 lies just below it, and
  \<open>Math.round\<close> gives 57.
\<close>

lemma percent_below_tie: "percent 23 40 = 57" "(23 / 40 * 100 :: rat) = 57 + 1 / 2"
  by code_simp+

lemma digitChar_inj: "a < 10 \<Longrightarrow> b < 10 \<Longrightarrow> digitChar a = digitChar b \<Longrightarrow> a = b"
proof -
  assume a: "a < 10" and b: "b < 10" and e: "digitChar a = digitChar b"
  have d: "distinct ''0123456789''" by simp
  have l: "length ''0123456789'' = 10" by simp
  from e have "''0123456789'' ! a = ''0123456789'' ! b" by (simp only: digitChar_def)
  with d a b l show "a = b" by (simp only: nth_eq_iff_index_eq)
qed

lemma digitsOf_nonempty: "digitsOf n \<noteq> []"
  by (subst digitsOf.simps) simp

lemma digitsOf_inj: "digitsOf m = digitsOf n \<Longrightarrow> m = n"
proof (induction m arbitrary: n rule: digitsOf.induct)
  case (1 m)
  have big: "digitsOf k = digitsOf (k div 10) @ [digitChar (k mod 10)]" if "\<not> k < 10" for k
    using that by (subst digitsOf.simps) simp
  have small: "digitsOf k = [digitChar k]" if "k < 10" for k
    using that by (subst digitsOf.simps) simp
  show ?case
  proof (cases "m < 10")
    case m: True
    show ?thesis
    proof (cases "n < 10")
      case True
      with m 1(2) show ?thesis by (simp add: small digitChar_inj)
    next
      case False
      with m 1(2) digitsOf_nonempty [of "n div 10"] show ?thesis by (simp add: small big)
    qed
  next
    case m: False
    show ?thesis
    proof (cases "n < 10")
      case True
      with m 1(2) digitsOf_nonempty [of "m div 10"] show ?thesis by (simp add: small big)
    next
      case False
      with m 1(2) have e: "digitsOf (m div 10) = digitsOf (n div 10)"
        "digitChar (m mod 10) = digitChar (n mod 10)"
        by (simp_all add: big)
      from 1(1) [OF m e(1)] have q: "m div 10 = n div 10" .
      from e(2) have r: "m mod 10 = n mod 10" by (rule digitChar_inj [rotated 2]) simp_all
      from q r show ?thesis by (metis div_mult_mod_eq)
    qed
  qed
qed

lemma numString_nat_inj: "numString (int i) = numString (int j) \<Longrightarrow> i = j"
  by (simp add: numString_def digitsOf_inj)

lemma demo_mapFiles:
  "mapFiles demoEnv fs idx w =
     (map (\<lambda>j. newItem (numString 1700000000000 @ ''-'' @ numString (int (idx + j)) @ ''-k3j9x2'') (fs ! j))
        [0..<length fs], w)"
proof (induction fs arbitrary: idx w)
  case Nil
  then show ?case by simp
next
  case (Cons f fs)
  have ops: "dateNow demoEnv u = (1700000000000, u)" "mathRandom36 demoEnv u = (''0.k3j9x2ab'', u)" for u
    by (simp_all add: demoEnv_def)
  show ?case
    by (simp add: ops Cons.IH map_upt_Suc ac_simps del: upt_Suc)
qed

lemma forty_items:
  "fortyItems =
     map (\<lambda>j. newItem (numString 1700000000000 @ ''-'' @ numString (int j) @ ''-k3j9x2'')
                (mkFile ''notes.txt'' ''text/plain'')) [0..<40]"
  unfolding fortyItems_def addFiles_def demo_mapFiles by simp

lemma forty_distinct: "distinct (map itemId fortyItems)"
proof -
  have "inj_on (\<lambda>j. numString 1700000000000 @ ''-'' @ numString (int j) @ ''-k3j9x2'') (set [0..<40])"
    by (rule inj_onI) (simp add: numString_nat_inj)
  then have "distinct (map (\<lambda>j. numString 1700000000000 @ ''-'' @ numString (int j) @ ''-k3j9x2'') [0..<40])"
    by (simp add: distinct_map)
  moreover have "map itemId fortyItems =
      map (\<lambda>j. numString 1700000000000 @ ''-'' @ numString (int j) @ ''-k3j9x2'') [0..<40]"
    unfolding forty_items by (simp add: newItem_def comp_def)
  ultimately show ?thesis by simp
qed

lemma forty_selected: "selectedPositions fortyItems = [0..<40]"
proof -
  have len: "length fortyItems = 40" unfolding forty_items by simp
  have "selected (fortyItems ! p)" if "p < 40" for p
    unfolding forty_items using that by (simp add: newItem_def del: upt_Suc)
  then have "filter (\<lambda>p. selected (fortyItems ! p)) [0..<40] = [0..<40]"
    by (simp add: filter_id_conv del: upt_Suc)
  then show ?thesis by (simp add: selectedPositions_def len)
qed

text \<open>
  C2, as the claim states it, fails on the value: in a run over forty selected items, the
  progress published after the 23rd item is 57, while 23 / 40 * 100 = 57.5 rounds to 58.
\<close>

theorem convertAll_progress_tie_counterexample:
  "distinct (map itemId fortyItems) \<and> length (selectedPositions fortyItems) = 40
   \<and> progressValues (uiLog (snd (convertAll demoEnv fortyItems demoWorld))) ! 23 = 57
   \<and> Math_round (23 / 40 * 100) = 58"
proof -
  have r: "Math_round (23 / 40 * 100) = 58" by code_simp
  have n: "length (selectedPositions fortyItems) = 40" by (simp add: forty_selected)
  have "progressValues (uiLog (snd (convertAll demoEnv fortyItems demoWorld))) =
      0 # map (\<lambda>k. percent (k + 1) 40) [0..<40]"
    using convertAll_progressValues [OF forty_distinct, of demoEnv demoWorld]
    by (simp add: n demoWorld_def del: upt_Suc)
  then have "progressValues (uiLog (snd (convertAll demoEnv fortyItems demoWorld))) ! 23 =
      map (\<lambda>k. percent (k + 1) 40) [0..<40] ! 22"
    by (simp del: upt_Suc)
  also have "\<dots> = percent 23 40" by (simp del: upt_Suc)
  finally have "progressValues (uiLog (snd (convertAll demoEnv fortyItems demoWorld))) ! 23 = 57"
    by (simp add: percent_below_tie)
  with forty_distinct n r show ?thesis by (intro conjI)
qed

text \<open>
  C2, amended. In a queue with distinct identifiers, let \<open>work\<close> be the positions of the
  selected items, in the order of the queue, and \<open>n\<close> their number. The run is the
  following chain, and nothing else. It publishes progress 0. Then, for \<open>k\<close> from 0, it
  publishes the items \<open>A k\<close>, in which item \<open>work ! k\<close> is converting, and only then
  converts that item, starting in the state \<open>S k\<close> reached by these publications and
  ending in \<open>T k\<close> with the result \<open>R k\<close>, success or failure. From \<open>T k\<close> it publishes
  the progress \<open>percent (k + 1) n\<close> and the items \<open>B k\<close>, in which the item is done or in
  error; the next conversion starts from there, and after the last one the run
  returns \<open>B (n - 1)\<close>. While item \<open>k\<close> is converted, the earlier selected items are as
  their rounds left them and the later ones are as they were at the start. The published
  progress values never decrease and the last one is 100. The value published after \<open>k\<close>
  items is \<open>Math.round\<close> of the binary64 quotient and product: for fewer than \<open>2^32\<close>
  items it is the exact \<open>100 k / n\<close> rounded to the nearest integer, except that an exact
  half may be rounded down instead of up.
\<close>

theorem convertAll_sequential_progress:
  fixes env :: "'w Env" and s :: "'w World"
  assumes ids: "distinct (map itemId items)"
    and work: "work = selectedPositions items" and n: "n = length work"
  shows "\<exists>A B S T R.
     (\<forall>k < n.
         A k = (if k = 0 then items else B (k - 1))
                 [work ! k := (items ! (work ! k))\<lparr>status := Converting\<rparr>]
       \<and> S k = setItems env (A k)
                 (if k = 0 then setProgress env 0 s
                  else setItems env (B (k - 1)) (setProgress env (percent k n) (T (k - 1))))
       \<and> convertBody env (A k ! (work ! k)) (A k ! (work ! k)) (S k) = (R k, T k)
       \<and> B k = (A k)[work ! k := settle (A k ! (work ! k)) (R k)]
       \<and> uiLog (T k) =
           uiLog s @ SetProgress 0 #
             concat (map (\<lambda>j. [SetItems (A j), SetProgress (percent (j + 1) n), SetItems (B j)]) [0..<k])
             @ [SetItems (A k)]
       \<and> A k ! (work ! k) = (items ! (work ! k))\<lparr>status := Converting\<rparr>
       \<and> terminal (status (B k ! (work ! k)))
       \<and> (\<forall>j < k. A k ! (work ! j) = B j ! (work ! j) \<and> B k ! (work ! j) = B j ! (work ! j))
       \<and> (\<forall>j < n. k < j \<longrightarrow> A k ! (work ! j) = items ! (work ! j) \<and> B k ! (work ! j) = items ! (work ! j)))
     \<and> convertAll env items s =
         (if n = 0 then (Inr items, setProgress env 0 s)
          else (Inr (B (n - 1)),
                setItems env (B (n - 1)) (setProgress env (percent n n) (T (n - 1)))))
     \<and> sorted work \<and> distinct work \<and> set work = {p. p < length items \<and> selected (items ! p)}
     \<and> sorted (0 # map (\<lambda>k. percent (k + 1) n) [0..<n])
     \<and> (0 < n \<longrightarrow> percent n n = 100)
     \<and> (n < 2 ^ 32 \<longrightarrow>
          (\<forall>k. 0 < k \<and> k \<le> n \<longrightarrow>
             percent k n = Math_round (100 * of_nat k / of_nat n)
             \<or> (of_int (percent k n) :: rat) = 100 * of_nat k / of_nat n - 1 / 2))"
proof -
  have dw: "distinct work" unfolding work by (rule selectedPositions_distinct)
  have bw: "\<forall>p \<in> set work. p < length items" unfolding work by (simp add: selectedPositions_set)
  have wl: "work ! j < length items" if "j < n" for j
    using bw that unfolding n by simp
  from convertLoop_chain [OF ids dw bw, where env = env and s = "setProgress env 0 s"
      and ?done = 0 and n = n]
  obtain A B S T R where
    ch: "\<And>k. k < length work \<Longrightarrow>
         A k = (if k = 0 then items else B (k - 1))
                 [work ! k := ((if k = 0 then items else B (k - 1)) ! (work ! k))\<lparr>status := Converting\<rparr>]
       \<and> S k = setItems env (A k)
                 (if k = 0 then setProgress env 0 s
                  else setItems env (B (k - 1)) (setProgress env (percent (0 + k) n) (T (k - 1))))
       \<and> convertBody env (A k ! (work ! k)) (A k ! (work ! k)) (S k) = (R k, T k)
       \<and> B k = (A k)[work ! k := settle (A k ! (work ! k)) (R k)]
       \<and> uiLog (T k) =
           uiLog (setProgress env 0 s)
           @ concat (map (\<lambda>j. [SetItems (A j), SetProgress (percent (0 + 1 + j) n), SetItems (B j)])
                               [0..<k]) @ [SetItems (A k)]
       \<and> (\<forall>q < length items. q \<notin> set (take (Suc k) work) \<longrightarrow> B k ! q = items ! q)
       \<and> length (B k) = length items \<and> map itemId (B k) = map itemId items"
    and fin: "convertLoop env work 0 n items (setProgress env 0 s) =
         (if work = [] then (Inr items, setProgress env 0 s)
          else (Inr (B (length work - 1)),
                setItems env (B (length work - 1))
                  (setProgress env (percent (0 + length work) n) (T (length work - 1)))))"
    by blast
  have frame: "B k ! q = items ! q" if "k < n" "q < length items" "q \<notin> set (take (Suc k) work)" for k q
    using ch [OF that(1) [unfolded n]] that(2,3) by blast
  have lenB: "length (B k) = length items" if "k < n" for k
    using ch [OF that [unfolded n]] by blast
  have prev: "(if k = 0 then items else B (k - 1)) ! (work ! j) = items ! (work ! j)"
    and lenp: "length (if k = 0 then items else B (k - 1)) = length items"
    if "k < n" "k \<le> j" "j < n" for k j
  proof -
    show "length (if k = 0 then items else B (k - 1)) = length items"
      using lenB [of "k - 1"] that by simp
    show "(if k = 0 then items else B (k - 1)) ! (work ! j) = items ! (work ! j)"
    proof (cases k)
      case 0
      then show ?thesis by simp
    next
      case (Suc k')
      then have "work ! j \<notin> set (take (Suc k') work)"
        using nth_notin_take [OF dw, of j k'] that unfolding n by simp
      then show ?thesis using frame [of k' "work ! j"] wl [OF that(3)] that Suc by simp
    qed
  qed
  have a: "A k = (if k = 0 then items else B (k - 1))
                 [work ! k := (items ! (work ! k))\<lparr>status := Converting\<rparr>]" if "k < n" for k
    using ch [OF that [unfolded n], THEN conjunct1] unfolding prev [OF that le_refl that] .
  have b: "S k = setItems env (A k)
                 (if k = 0 then setProgress env 0 s
                  else setItems env (B (k - 1)) (setProgress env (percent k n) (T (k - 1))))"
    if "k < n" for k
    using ch [OF that [unfolded n], THEN conjunct2, THEN conjunct1] unfolding add_0 .
  have c: "convertBody env (A k ! (work ! k)) (A k ! (work ! k)) (S k) = (R k, T k)" if "k < n" for k
    using ch [OF that [unfolded n], THEN conjunct2, THEN conjunct2, THEN conjunct1] .
  have d: "B k = (A k)[work ! k := settle (A k ! (work ! k)) (R k)]" if "k < n" for k
    using ch [OF that [unfolded n], THEN conjunct2, THEN conjunct2, THEN conjunct2, THEN conjunct1] .
  have e: "uiLog (T k) =
           uiLog s @ SetProgress 0 #
             concat (map (\<lambda>j. [SetItems (A j), SetProgress (percent (j + 1) n), SetItems (B j)]) [0..<k])
             @ [SetItems (A k)]" if "k < n" for k
    using ch [OF that [unfolded n], THEN conjunct2, THEN conjunct2, THEN conjunct2, THEN conjunct2,
        THEN conjunct1]
    by (simp add: setProgress_def add.commute)
  have lenA: "length (A k) = length items" if "k < n" for k
    unfolding a [OF that] using lenp [OF that le_refl that] by simp
  have f: "A k ! (work ! k) = (items ! (work ! k))\<lparr>status := Converting\<rparr>" if "k < n" for k
    unfolding a [OF that] using lenp [OF that le_refl that] wl [OF that] by simp
  have g: "terminal (status (B k ! (work ! k)))" if "k < n" for k
  proof -
    have "B k ! (work ! k) = settle (A k ! (work ! k)) (R k)"
      unfolding d [OF that] using lenA [OF that] wl [OF that] by simp
    then show ?thesis using settle_fields [OF c [OF that]] by (simp add: terminal_def)
  qed
  have keep: "B k ! (work ! j) = B j ! (work ! j)" if "j \<le> k" "k < n" for j k
    using a d dw n that by (rule chain_keeps)
  have h: "A k ! (work ! j) = B j ! (work ! j) \<and> B k ! (work ! j) = B j ! (work ! j)" if "k < n" "j < k" for j k
  proof -
    from that obtain k' where k': "k = Suc k'" by (cases k) simp_all
    have ne: "work ! k \<noteq> work ! j" using dw that n by (simp add: nth_eq_iff_index_eq)
    have "A k ! (work ! j) = B k' ! (work ! j)" unfolding a [OF that(1)] using ne k' by simp
    also have "\<dots> = B j ! (work ! j)" using keep [of j k'] that k' by simp
    finally show ?thesis using keep [of j k] that by simp
  qed
  have i: "A k ! (work ! j) = items ! (work ! j) \<and> B k ! (work ! j) = items ! (work ! j)"
    if "k < n" "j < n" "k < j" for j k
  proof -
    have ne: "work ! k \<noteq> work ! j" using dw that n by (simp add: nth_eq_iff_index_eq)
    have "A k ! (work ! j) = items ! (work ! j)"
      unfolding a [OF that(1)] using ne prev [OF that(1) _ that(2)] that(3) by simp
    moreover have "B k ! (work ! j) = A k ! (work ! j)" unfolding d [OF that(1)] using ne by simp
    ultimately show ?thesis by simp
  qed
  have run: "convertAll env items s =
         (if n = 0 then (Inr items, setProgress env 0 s)
          else (Inr (B (n - 1)),
                setItems env (B (n - 1)) (setProgress env (percent n n) (T (n - 1)))))"
    using fin unfolding convertAll_def Let_def work [symmetric] n [symmetric] by (simp add: n)
  have rest: "sorted work" "distinct work" "set work = {p. p < length items \<and> selected (items ! p)}"
    unfolding work
    by (rule selectedPositions_sorted, rule selectedPositions_distinct, rule selectedPositions_set)
  have srt: "sorted (0 # map (\<lambda>k. percent (k + 1) n) [0..<n])" by (rule sorted_percents)
  have full: "0 < n \<longrightarrow> percent n n = 100" using percent_all by blast
  have near: "n < 2 ^ 32 \<longrightarrow>
          (\<forall>k. 0 < k \<and> k \<le> n \<longrightarrow>
             percent k n = Math_round (100 * of_nat k / of_nat n)
             \<or> (of_int (percent k n) :: rat) = 100 * of_nat k / of_nat n - 1 / 2)"
    using percent_nearest by blast
  have rounds: "\<forall>k < n.
         A k = (if k = 0 then items else B (k - 1))
                 [work ! k := (items ! (work ! k))\<lparr>status := Converting\<rparr>]
       \<and> S k = setItems env (A k)
                 (if k = 0 then setProgress env 0 s
                  else setItems env (B (k - 1)) (setProgress env (percent k n) (T (k - 1))))
       \<and> convertBody env (A k ! (work ! k)) (A k ! (work ! k)) (S k) = (R k, T k)
       \<and> B k = (A k)[work ! k := settle (A k ! (work ! k)) (R k)]
       \<and> uiLog (T k) =
           uiLog s @ SetProgress 0 #
             concat (map (\<lambda>j. [SetItems (A j), SetProgress (percent (j + 1) n), SetItems (B j)]) [0..<k])
             @ [SetItems (A k)]
       \<and> A k ! (work ! k) = (items ! (work ! k))\<lparr>status := Converting\<rparr>
       \<and> terminal (status (B k ! (work ! k)))
       \<and> (\<forall>j < k. A k ! (work ! j) = B j ! (work ! j) \<and> B k ! (work ! j) = B j ! (work ! j))
       \<and> (\<forall>j < n. k < j \<longrightarrow> A k ! (work ! j) = items ! (work ! j) \<and> B k ! (work ! j) = items ! (work ! j))"
  proof (intro allI impI conjI)
    fix k assume k: "k < n"
    show "A k = (if k = 0 then items else B (k - 1))
                 [work ! k := (items ! (work ! k))\<lparr>status := Converting\<rparr>]" by (rule a [OF k])
    show "S k = setItems env (A k)
                 (if k = 0 then setProgress env 0 s
                  else setItems env (B (k - 1)) (setProgress env (percent k n) (T (k - 1))))"
      by (rule b [OF k])
    show "convertBody env (A k ! (work ! k)) (A k ! (work ! k)) (S k) = (R k, T k)" by (rule c [OF k])
    show "B k = (A k)[work ! k := settle (A k ! (work ! k)) (R k)]" by (rule d [OF k])
    show "uiLog (T k) =
           uiLog s @ SetProgress 0 #
             concat (map (\<lambda>j. [SetItems (A j), SetProgress (percent (j + 1) n), SetItems (B j)]) [0..<k])
             @ [SetItems (A k)]" by (rule e [OF k])
    show "A k ! (work ! k) = (items ! (work ! k))\<lparr>status := Converting\<rparr>" by (rule f [OF k])
    show "terminal (status (B k ! (work ! k)))" by (rule g [OF k])
    show "A k ! (work ! j) = B j ! (work ! j)" if "j < k" for j using h [OF k that] by simp
    show "B k ! (work ! j) = B j ! (work ! j)" if "j < k" for j using h [OF k that] by simp
    show "A k ! (work ! j) = items ! (work ! j)" if "j < n" "k < j" for j using i [OF k that] by simp
    show "B k ! (work ! j) = items ! (work ! j)" if "j < n" "k < j" for j using i [OF k that] by simp
  qed
  show ?thesis
    apply (rule exI [of _ A], rule exI [of _ B], rule exI [of _ S], rule exI [of _ T], rule exI [of _ R])
    apply (intro conjI)
           apply (rule rounds)
          apply (rule run)
         apply (rule rest(1))
        apply (rule rest(2))
       apply (rule rest(3))
      apply (rule srt)
     apply (rule full)
    apply (rule near)
    done
qed

lemma probe_ids:
  "itemId probeA = ''1700000000000-0-k3j9x2''" "itemId probeB = ''1700000000000-1-k3j9x2''"
  "itemId probeC = ''1700000000000-2-k3j9x2''"
  by (simp_all add: probeA_def probeB_def probeC_def newItem_def)

lemma probe_distinct: "distinct (map itemId probeItems)"
  by (simp add: probeItems_def probe_ids)

lemma probe_selected: "selectedPositions probeItems = [0, 1, 2]"
  by code_simp

lemma probe_classes:
  "isPDF (itemFile probeA)" "isPDF (itemFile probeB)" "isPDF (itemFile probeC)"
  "pdfAction probeA = PdfNone" "pdfAction probeB = PdfNone" "pdfAction probeC = PdfNone"
  by code_simp+

lemma probe_ops:
  "fileArrayBuffer probeEnv f w = (Inr [nat w], w)"
  "renderProgress probeEnv v w = v" "renderItems probeEnv xs w = w"
  by (simp_all add: probeEnv_def)

lemma probe_body:
  assumes "isPDF (itemFile it)" "pdfAction it = PdfNone"
  shows "convertBody probeEnv it tgt s =
     (Inr (tgt\<lparr>outBlob := Some \<lparr>blobData = [nat (outside s)], blobType = ''application/pdf''\<rparr>,
               status := Done\<rparr>), s)"
proof -
  have "s\<lparr>outside := outside s\<rparr> = s" by simp
  then show ?thesis
    using assms by (simp add: convertBody_def bindT_def returnT_def call_def probe_ops)
qed

lemma probe_run:
  "fst (convertAll probeEnv probeItems probeWorld) =
     Inr [probeA\<lparr>status := Done, outBlob := Some \<lparr>blobData = [0], blobType = ''application/pdf''\<rparr>\<rparr>,
          probeB\<lparr>status := Done, outBlob := Some \<lparr>blobData = [33], blobType = ''application/pdf''\<rparr>\<rparr>,
          probeC\<lparr>status := Done, outBlob := Some \<lparr>blobData = [67], blobType = ''application/pdf''\<rparr>\<rparr>]"
  "progressValues (uiLog (snd (convertAll probeEnv probeItems probeWorld))) = [0, 33, 67, 100]"
  "outside (snd (convertAll probeEnv probeItems probeWorld)) = 100"
  by (simp_all add: convertAll_def probe_selected [unfolded probeItems_def] Let_def probeItems_def
      probe_ids probe_body probe_classes settle_def
      setItems_def setProgress_def probeWorld_def demo_percents_Suc probe_ops)

theorem convertAll_sequential_progress_witness:
  "distinct (map itemId probeItems) \<and> selectedPositions probeItems = [0, 1, 2]
   \<and> fst (convertAll probeEnv probeItems probeWorld) =
       Inr [probeA\<lparr>status := Done, outBlob := Some \<lparr>blobData = [0], blobType = ''application/pdf''\<rparr>\<rparr>,
            probeB\<lparr>status := Done, outBlob := Some \<lparr>blobData = [33], blobType = ''application/pdf''\<rparr>\<rparr>,
            probeC\<lparr>status := Done, outBlob := Some \<lparr>blobData = [67], blobType = ''application/pdf''\<rparr>\<rparr>]
   \<and> progressValues (uiLog (snd (convertAll probeEnv probeItems probeWorld))) = [0, 33, 67, 100]
   \<and> (\<exists>(A :: nat \<Rightarrow> QItem list) (B :: nat \<Rightarrow> QItem list) (S :: nat \<Rightarrow> int World)
          (T :: nat \<Rightarrow> int World) (R :: nat \<Rightarrow> thrown + QItem).
          S 1 = setItems probeEnv (A 1) (setItems probeEnv (B 0) (setProgress probeEnv 33 (T 0)))
        \<and> convertBody probeEnv (A 1 ! 1) (A 1 ! 1) (S 1) = (R 1, T 1)
        \<and> A 1 ! 1 = probeB\<lparr>status := Converting\<rparr>
        \<and> terminal (status (B 1 ! 1))
        \<and> A 1 ! 0 = B 0 ! 0 \<and> A 1 ! 2 = probeC
        \<and> convertAll probeEnv probeItems probeWorld =
            (Inr (B 2), setItems probeEnv (B 2) (setProgress probeEnv 100 (T 2))))"
proof -
  have n: "3 = length [0, 1, 2 :: nat]" by simp
  have p: "percent 1 3 = 33" "percent 3 3 = 100" by (rule demo_percents)+
  have p': "percent (Suc 0) 3 = 33" using p(1) by simp
  have one: "(1 :: nat) < 3" by simp
  have ex: "\<exists>(A :: nat \<Rightarrow> QItem list) (B :: nat \<Rightarrow> QItem list) (S :: nat \<Rightarrow> int World)
          (T :: nat \<Rightarrow> int World) (R :: nat \<Rightarrow> thrown + QItem).
          S 1 = setItems probeEnv (A 1) (setItems probeEnv (B 0) (setProgress probeEnv 33 (T 0)))
        \<and> convertBody probeEnv (A 1 ! 1) (A 1 ! 1) (S 1) = (R 1, T 1)
        \<and> A 1 ! 1 = probeB\<lparr>status := Converting\<rparr>
        \<and> terminal (status (B 1 ! 1))
        \<and> A 1 ! 0 = B 0 ! 0 \<and> A 1 ! 2 = probeC
        \<and> convertAll probeEnv probeItems probeWorld =
            (Inr (B 2), setItems probeEnv (B 2) (setProgress probeEnv 100 (T 2)))"
    using convertAll_sequential_progress [OF probe_distinct probe_selected [symmetric] n,
      where env = probeEnv and s = probeWorld]
  proof (elim exE conjE)
    fix A B S T R
    assume rounds: "\<forall>k < 3.
         A k = (if k = 0 then probeItems else B (k - 1))
                 [[0, 1, 2] ! k := (probeItems ! ([0, 1, 2] ! k))\<lparr>status := Converting\<rparr>]
       \<and> S k = setItems probeEnv (A k)
                 (if k = 0 then setProgress probeEnv 0 probeWorld
                  else setItems probeEnv (B (k - 1)) (setProgress probeEnv (percent k 3) (T (k - 1))))
       \<and> convertBody probeEnv (A k ! ([0, 1, 2] ! k)) (A k ! ([0, 1, 2] ! k)) (S k) = (R k, T k)
       \<and> B k = (A k)[[0, 1, 2] ! k := settle (A k ! ([0, 1, 2] ! k)) (R k)]
       \<and> uiLog (T k) =
           uiLog probeWorld @ SetProgress 0 #
             concat (map (\<lambda>j. [SetItems (A j), SetProgress (percent (j + 1) 3), SetItems (B j)]) [0..<k])
             @ [SetItems (A k)]
       \<and> A k ! ([0, 1, 2] ! k) = (probeItems ! ([0, 1, 2] ! k))\<lparr>status := Converting\<rparr>
       \<and> terminal (status (B k ! ([0, 1, 2] ! k)))
       \<and> (\<forall>j < k. A k ! ([0, 1, 2] ! j) = B j ! ([0, 1, 2] ! j) \<and> B k ! ([0, 1, 2] ! j) = B j ! ([0, 1, 2] ! j))
       \<and> (\<forall>j < 3. k < j \<longrightarrow> A k ! ([0, 1, 2] ! j) = probeItems ! ([0, 1, 2] ! j)
              \<and> B k ! ([0, 1, 2] ! j) = probeItems ! ([0, 1, 2] ! j))"
      and run: "convertAll probeEnv probeItems probeWorld =
         (if (3 :: nat) = 0 then (Inr probeItems, setProgress probeEnv 0 probeWorld)
          else (Inr (B (3 - 1)),
                setItems probeEnv (B (3 - 1)) (setProgress probeEnv (percent 3 3) (T (3 - 1)))))"
    note r1 = rounds [rule_format, OF one]
    have a: "S 1 = setItems probeEnv (A 1) (setItems probeEnv (B 0) (setProgress probeEnv 33 (T 0)))"
      using r1 [THEN conjunct2, THEN conjunct1] by (simp add: p p')
    have b: "convertBody probeEnv (A 1 ! 1) (A 1 ! 1) (S 1) = (R 1, T 1)"
      using r1 [THEN conjunct2, THEN conjunct2, THEN conjunct1] by simp
    have c: "A 1 ! 1 = probeB\<lparr>status := Converting\<rparr>"
      using r1 [THEN conjunct2, THEN conjunct2, THEN conjunct2, THEN conjunct2, THEN conjunct2, THEN conjunct1]
      by (simp add: probeItems_def)
    have d: "terminal (status (B 1 ! 1))"
      using r1 [THEN conjunct2, THEN conjunct2, THEN conjunct2, THEN conjunct2, THEN conjunct2, THEN conjunct2,
          THEN conjunct1] by simp
    have e: "A 1 ! 0 = B 0 ! 0"
      using r1 [THEN conjunct2, THEN conjunct2, THEN conjunct2, THEN conjunct2, THEN conjunct2, THEN conjunct2,
          THEN conjunct2, THEN conjunct1, rule_format, of 0] by simp
    have f: "A 1 ! 2 = probeC"
      using r1 [THEN conjunct2, THEN conjunct2, THEN conjunct2, THEN conjunct2, THEN conjunct2, THEN conjunct2,
          THEN conjunct2, THEN conjunct2, rule_format, of 2] by (simp add: probeItems_def)
    have g: "convertAll probeEnv probeItems probeWorld =
            (Inr (B 2), setItems probeEnv (B 2) (setProgress probeEnv 100 (T 2)))"
      using run by (simp add: p p')
    show ?thesis
    proof (rule exI [of _ A], rule exI [of _ B], rule exI [of _ S], rule exI [of _ T], rule exI [of _ R],
        intro conjI)
      show "S 1 = setItems probeEnv (A 1) (setItems probeEnv (B 0) (setProgress probeEnv 33 (T 0)))" by (rule a)
      show "convertBody probeEnv (A 1 ! 1) (A 1 ! 1) (S 1) = (R 1, T 1)" by (rule b)
      show "A 1 ! 1 = probeB\<lparr>status := Converting\<rparr>" by (rule c)
      show "terminal (status (B 1 ! 1))" by (rule d)
      show "A 1 ! 0 = B 0 ! 0" by (rule e)
      show "A 1 ! 2 = probeC" by (rule f)
      show "convertAll probeEnv probeItems probeWorld =
            (Inr (B 2), setItems probeEnv (B 2) (setProgress probeEnv 100 (T 2)))" by (rule g)
    qed
  qed
  from probe_distinct probe_selected probe_run(1) probe_run(2) ex show ?thesis by (intro conjI)
qed

lemma gone_body:
  "convertBody goneEnv (docDone\<lparr>status := st\<rparr>) tgt s =
     (Inl (newError ''The requested file could not be read''), s)"
  by (simp add: convertBody_def docDone_def docItem_def newItem_def demo_classes bindT_def call_def
      goneEnv_def)

text \<open>
  C3, as the claim states it, fails: a later run of \<open>convertAll\<close> converts a selected
  item again although it is done. Here the document was converted, its file then became
  unreadable, and the next run publishes it as converting and leaves it in error.
\<close>

theorem convertAll_reconverts_done_counterexample:
  "status docDone = Done \<and> selected docDone
   \<and> fst (convertAll goneEnv [docDone] demoWorld) =
       Inr [docDone\<lparr>status := Error, errorMsg := Some ''The requested file could not be read''\<rparr>]
   \<and> itemSnapshots (uiLog (snd (convertAll goneEnv [docDone] demoWorld))) =
       [[docDone\<lparr>status := Converting\<rparr>],
        [docDone\<lparr>status := Error, errorMsg := Some ''The requested file could not be read''\<rparr>]]"
proof -
  have sel: "selected docDone" "status docDone = Done"
    by (simp_all add: docDone_def docItem_def newItem_def)
  have pos: "selectedPositions [docDone] = [0]"
    by (simp add: selectedPositions_def sel)
  show ?thesis
    by (simp add: sel convertAll_def pos Let_def gone_body settle_def errText_def newError_def
        setItems_def setProgress_def demoWorld_def demoEnv_ops)
qed


text \<open>
  C3, amended. In a queue with distinct identifiers, \<open>convertAll\<close> leaves every item
  that is not selected exactly as it was, whatever its status. Every selected item is
  converted, whatever its status: the item it becomes is the one the conversion attempt
  makes of it, which is the same as if it had been pending, and its status is then done
  or error.
\<close>

theorem convertAll_reconverts_selected:
  fixes env :: "'w Env" and s :: "'w World"
  assumes ids: "distinct (map itemId items)"
  shows "\<exists>items'. fst (convertAll env items s) = Inr items' \<and> length items' = length items
     \<and> (\<forall>j < length items. \<not> selected (items ! j) \<longrightarrow> items' ! j = items ! j)
     \<and> (\<forall>j < length items. selected (items ! j) \<longrightarrow>
           terminal (status (items' ! j))
           \<and> (\<exists>sq. items' ! j = attempt env ((items ! j)\<lparr>status := Pending\<rparr>) sq))"
proof -
  from convertAll_items [OF ids, of env s] obtain items' where
    r: "fst (convertAll env items s) = Inr items'" "length items' = length items"
      "\<forall>j < length items. \<not> selected (items ! j) \<longrightarrow> items' ! j = items ! j"
    and sel: "\<forall>j < length items. selected (items ! j) \<longrightarrow> (\<exists>sq. items' ! j = attempt env (items ! j) sq)"
    by blast
  have "terminal (status (items' ! j)) \<and> (\<exists>sq. items' ! j = attempt env ((items ! j)\<lparr>status := Pending\<rparr>) sq)"
    if "j < length items" "selected (items ! j)" for j
  proof -
    from sel that obtain sq where sq: "items' ! j = attempt env (items ! j) sq" by blast
    then have "terminal (status (items' ! j))" by (simp add: attempt_fields)
    moreover have "items' ! j = attempt env ((items ! j)\<lparr>status := Pending\<rparr>) sq"
      using sq by (simp add: attempt_status_irrelevant)
    ultimately show ?thesis by blast
  qed
  with r show ?thesis by blast
qed

theorem convertAll_reconverts_selected_witness:
  "distinct (map itemId [docDone, photoItem\<lparr>selected := False\<rparr>])
   \<and> selected docDone \<and> \<not> selected (photoItem\<lparr>selected := False\<rparr>)
   \<and> (\<exists>items'. fst (convertAll goneEnv [docDone, photoItem\<lparr>selected := False\<rparr>] demoWorld) = Inr items'
        \<and> length items' = 2 \<and> items' ! 1 = photoItem\<lparr>selected := False\<rparr>
        \<and> terminal (status (items' ! 0))
        \<and> (\<exists>sq. items' ! 0 = attempt goneEnv (docDone\<lparr>status := Pending\<rparr>) sq))"
proof -
  let ?q = "[docDone, photoItem\<lparr>selected := False\<rparr>]"
  have d: "distinct (map itemId ?q)"
    by (simp add: docDone_def demo_ids)
  have sel: "selected docDone" "\<not> selected (photoItem\<lparr>selected := False\<rparr>)"
    by (simp_all add: docDone_def demo_selected_all)
  from convertAll_reconverts_selected [OF d, of goneEnv demoWorld]
  obtain items' where r: "fst (convertAll goneEnv ?q demoWorld) = Inr items'" "length items' = length ?q"
    "\<forall>j < length ?q. \<not> selected (?q ! j) \<longrightarrow> items' ! j = ?q ! j"
    "\<forall>j < length ?q. selected (?q ! j) \<longrightarrow>
           terminal (status (items' ! j))
           \<and> (\<exists>sq. items' ! j = attempt goneEnv ((?q ! j)\<lparr>status := Pending\<rparr>) sq)"
    by blast
  from r(3) [rule_format, of 1] sel have i1: "items' ! 1 = photoItem\<lparr>selected := False\<rparr>" by simp
  from r(4) [rule_format, of 0] sel have i0: "terminal (status (items' ! 0))"
    "\<exists>sq. items' ! 0 = attempt goneEnv (docDone\<lparr>status := Pending\<rparr>) sq"
    by simp_all
  from r(1,2) i1 i0 have "\<exists>items'. fst (convertAll goneEnv ?q demoWorld) = Inr items'
        \<and> length items' = 2 \<and> items' ! 1 = photoItem\<lparr>selected := False\<rparr>
        \<and> terminal (status (items' ! 0))
        \<and> (\<exists>sq. items' ! 0 = attempt goneEnv (docDone\<lparr>status := Pending\<rparr>) sq)"
    by simp
  with d sel show ?thesis by (intro conjI)
qed

section \<open>Targets of queue items\<close>

lemma mapFiles_items:
  "it \<in> set (fst (mapFiles env files idx w)) \<Longrightarrow> \<exists>i f. it = newItem i f \<and> f \<in> set files"
proof (induction files arbitrary: idx w)
  case Nil
  then show ?case by simp
next
  case (Cons f fs)
  then show ?case
    by (auto split: prod.splits) (metis fst_conv)+
qed

lemma addFiles_append:
  "fst (addFiles env files prev w) = prev @ fst (mapFiles env files 0 w)"
  by (simp add: addFiles_def split: prod.splits)

lemma newItem_target:
  "(inferTargets (ftype f) (fname f) \<noteq> [] \<longrightarrow> validTarget (newItem i f))
   \<and> (inferTargets (ftype f) (fname f) = [] \<longrightarrow> target (newItem i f) = ''image/webp'')"
  by (cases "inferTargets (ftype f) (fname f)") (simp_all add: newItem_def validTarget_def defaultTarget_def)

lemma isHeic_jpeg: "isHeic f \<Longrightarrow> ''image/jpeg'' \<in> set (inferTargets (ftype f) (fname f))"
  by (auto simp: isHeic_def inferTargets_def Let_def IMAGE_TARGETS_def startsWith_def)

lemma video_webm:
  "\<not> isHeic f \<Longrightarrow> \<not> startsWith (ftype f) ''image/'' \<Longrightarrow> \<not> isAudio f \<Longrightarrow> isVideo f \<Longrightarrow>
     ''video/webm'' \<in> set (inferTargets (ftype f) (fname f))"
  by (simp add: inferTargets_def isHeic_def isAudio_def isVideo_def Let_def VIDEO_TARGETS_def
      audioExt_def videoExt_def toLowerCase_idem)

lemma convertBody_Inr_target:
  assumes "convertBody env it tgt s = (Inr m, s')"
  shows "target m = target tgt \<or> target m \<in> set (inferTargets (ftype (itemFile it)) (fname (itemFile it)))"
proof -
  from assms have "target m = target tgt
      \<or> (isHeic (itemFile it) \<and> target m = ''image/jpeg'')
      \<or> (\<not> isHeic (itemFile it) \<and> \<not> startsWith (ftype (itemFile it)) ''image/''
          \<and> \<not> isAudio (itemFile it) \<and> isVideo (itemFile it) \<and> target m = ''video/webm'')"
    by (auto simp: convertBody_def bindT_def returnT_def throwT_def Let_def
        split: if_splits prod.splits sum.splits)
  then show ?thesis using isHeic_jpeg video_webm by metis
qed

lemma attempt_validTarget: "validTarget it \<Longrightarrow> validTarget (attempt env it s)"
proof -
  assume v: "validTarget it"
  let ?c = "it\<lparr>status := Converting\<rparr>"
  show ?thesis
  proof (cases "fst (convertBody env ?c ?c s)")
    case (Inl e)
    with v show ?thesis by (simp add: attempt_def settle_def validTarget_def)
  next
    case (Inr m)
    then have c: "convertBody env ?c ?c s = (Inr m, snd (convertBody env ?c ?c s))"
      by (simp add: prod_eq_iff)
    from convertBody_Inr(4) [OF c] convertBody_Inr_target [OF c] v Inr
    show ?thesis by (auto simp: attempt_def settle_def validTarget_def)
  qed
qed


text \<open>
  C4, as the claim states it, fails: a file no rule of the classifier accepts is
  enqueued with the fallback target \<open>image/webp\<close>, while its list of valid targets is
  empty.
\<close>

theorem addFiles_unsupported_target_counterexample:
  "fst (addFiles demoEnv [mkFile ''notes.txt'' ''text/plain''] [] ()) =
     [newItem ''1700000000000-0-k3j9x2'' (mkFile ''notes.txt'' ''text/plain'')]
   \<and> target (newItem ''1700000000000-0-k3j9x2'' (mkFile ''notes.txt'' ''text/plain'')) = ''image/webp''
   \<and> inferTargets ''text/plain'' ''notes.txt'' = []
   \<and> \<not> validTarget (newItem ''1700000000000-0-k3j9x2'' (mkFile ''notes.txt'' ''text/plain''))"
proof -
  have n: "numString 1700000000000 = ''1700000000000''" "numString 0 = ''0''"
    by (simp_all add: numString_def digitsOf.simps digitChar_def)
  have a: "fst (addFiles demoEnv [mkFile ''notes.txt'' ''text/plain''] [] ()) =
     [newItem ''1700000000000-0-k3j9x2'' (mkFile ''notes.txt'' ''text/plain'')]"
    by (simp add: addFiles_def demoEnv_def n)
  have i: "inferTargets ''text/plain'' ''notes.txt'' = []"
    by code_simp
  have sel: "ftype (mkFile ''notes.txt'' ''text/plain'') = ''text/plain''"
    "fname (mkFile ''notes.txt'' ''text/plain'') = ''notes.txt''"
    by (simp_all add: mkFile_def)
  have t: "target (newItem ''1700000000000-0-k3j9x2'' (mkFile ''notes.txt'' ''text/plain'')) = ''image/webp''"
    by (simp add: newItem_def demo_targets)
  have v: "\<not> validTarget (newItem ''1700000000000-0-k3j9x2'' (mkFile ''notes.txt'' ''text/plain''))"
    unfolding validTarget_def by (simp add: newItem_def sel i)
  from a t i v show ?thesis by (intro conjI)
qed

text \<open>
  C4, amended. \<open>addFiles\<close> keeps the queue and appends the new items. A new item whose
  file the classifier supports has a target in the list of its file; a new item whose
  file has an empty list has the fallback target \<open>image/webp\<close>. In a queue with distinct
  identifiers, \<open>convertAll\<close> keeps the target of every item in the list of its file if it
  was there before, the forced targets of the HEIC and video conversions included.
\<close>

theorem target_validity:
  fixes env :: "'w Env" and env' :: "'v Env" and s :: "'v World"
  shows "take (length prev) (fst (addFiles env files prev w)) = prev
   \<and> (\<forall>it \<in> set (drop (length prev) (fst (addFiles env files prev w))).
         (inferTargets (ftype (itemFile it)) (fname (itemFile it)) \<noteq> [] \<longrightarrow> validTarget it)
         \<and> (inferTargets (ftype (itemFile it)) (fname (itemFile it)) = [] \<longrightarrow> target it = ''image/webp''))
   \<and> (distinct (map itemId items) \<longrightarrow>
        (\<exists>items'. fst (convertAll env' items s) = Inr items' \<and> length items' = length items
           \<and> (\<forall>j < length items. validTarget (items ! j) \<longrightarrow> validTarget (items' ! j))))"
proof (intro conjI ballI impI)
  show "take (length prev) (fst (addFiles env files prev w)) = prev"
    by (simp add: addFiles_append)
next
  fix it
  assume "it \<in> set (drop (length prev) (fst (addFiles env files prev w)))"
  then have "it \<in> set (fst (mapFiles env files 0 w))" by (simp add: addFiles_append)
  from mapFiles_items [OF this] obtain i f where it: "it = newItem i f" by blast
  have f: "itemFile (newItem i f) = f" by (simp add: newItem_def)
  {
    assume "inferTargets (ftype (itemFile it)) (fname (itemFile it)) \<noteq> []"
    then show "validTarget it" using newItem_target [of f i] by (simp add: it f)
  }
  {
    assume "inferTargets (ftype (itemFile it)) (fname (itemFile it)) = []"
    then show "target it = ''image/webp''" using newItem_target [of f i] by (simp add: it f)
  }
next
  assume ids: "distinct (map itemId items)"
  from convertAll_items [OF ids, of env' s] obtain items' where
    r: "fst (convertAll env' items s) = Inr items'" "length items' = length items"
      "\<forall>j < length items. \<not> selected (items ! j) \<longrightarrow> items' ! j = items ! j"
      "\<forall>j < length items. selected (items ! j) \<longrightarrow> (\<exists>sq. items' ! j = attempt env' (items ! j) sq)"
    by blast
  have "validTarget (items' ! j)" if "j < length items" "validTarget (items ! j)" for j
  proof (cases "selected (items ! j)")
    case True
    with r(4) that(1) obtain sq where "items' ! j = attempt env' (items ! j) sq" by blast
    then show ?thesis using attempt_validTarget [OF that(2)] by simp
  next
    case False
    with r(3) that show ?thesis by simp
  qed
  with r(1,2) show "\<exists>items'. fst (convertAll env' items s) = Inr items' \<and> length items' = length items
           \<and> (\<forall>j < length items. validTarget (items ! j) \<longrightarrow> validTarget (items' ! j))"
    by blast
qed

theorem target_validity_witness:
  "fst (addFiles demoEnv [mkFile ''photo.png'' ''image/png'', mkFile ''notes.txt'' ''text/plain''] [docItem] ())
     = [docItem, photoItem, notesItem]
   \<and> inferTargets (ftype (itemFile photoItem)) (fname (itemFile photoItem)) = IMAGE_TARGETS
   \<and> validTarget photoItem
   \<and> inferTargets (ftype (itemFile notesItem)) (fname (itemFile notesItem)) = []
   \<and> target notesItem = ''image/webp''
   \<and> distinct (map itemId demoItems) \<and> validTarget (demoItems ! 0)
   \<and> (\<exists>items'. fst (convertAll demoEnv demoItems demoWorld) = Inr items' \<and> validTarget (items' ! 0))"
proof -
  let ?files = "[mkFile ''photo.png'' ''image/png'', mkFile ''notes.txt'' ''text/plain'']"
  have n: "numString 1700000000000 = ''1700000000000''" "numString 0 = ''0''" "numString 1 = ''1''"
    by (simp_all add: numString_def digitsOf.simps digitChar_def)
  have a: "fst (addFiles demoEnv ?files [docItem] ()) = [docItem, photoItem, notesItem]"
    by (simp add: addFiles_def demoEnv_def n photoItem_def notesItem_def)
  have sel: "itemFile photoItem = mkFile ''photo.png'' ''image/png''"
    "itemFile notesItem = mkFile ''notes.txt'' ''text/plain''"
    by (simp_all add: photoItem_def notesItem_def newItem_def)
  have i1: "inferTargets (ftype (itemFile photoItem)) (fname (itemFile photoItem)) = IMAGE_TARGETS"
    unfolding sel by code_simp
  have i2: "inferTargets (ftype (itemFile notesItem)) (fname (itemFile notesItem)) = []"
    unfolding sel by code_simp
  note T = target_validity [of "[docItem]" demoEnv ?files "()" demoItems demoEnv demoWorld]
  from T have new: "\<forall>it \<in> set (drop (length [docItem]) (fst (addFiles demoEnv ?files [docItem] ()))).
         (inferTargets (ftype (itemFile it)) (fname (itemFile it)) \<noteq> [] \<longrightarrow> validTarget it)
         \<and> (inferTargets (ftype (itemFile it)) (fname (itemFile it)) = [] \<longrightarrow> target it = ''image/webp'')"
    by blast
  have v1: "validTarget photoItem"
    using new [unfolded a, rule_format, of photoItem] i1 by (simp add: IMAGE_TARGETS_def)
  have v2: "target notesItem = ''image/webp''"
    using new [unfolded a, rule_format, of notesItem] i2 by simp
  have v0: "validTarget (demoItems ! 0)" using v1 by (simp add: demoItems_def)
  from T demo_distinct v0
  have run: "\<exists>items'. fst (convertAll demoEnv demoItems demoWorld) = Inr items' \<and> validTarget (items' ! 0)"
    by (auto simp: demoItems_def)
  from a i1 v1 i2 v2 demo_distinct v0 run show ?thesis by (intro conjI)
qed

section \<open>The archive\<close>

lemma writeAll_simps:
  "writeAll files [] = files"
  "writeAll files ((n, b) # ws) = writeAll (AList.update n b files) ws"
  "writeAll files (xs @ ys) = writeAll (writeAll files xs) ys"
  by (simp_all add: writeAll_def)

lemma map_of_writeAll: "map_of (writeAll files ws) = map_of files ++ map_of (rev ws)"
proof (induction ws arbitrary: files)
  case Nil
  then show ?case by (simp add: writeAll_simps)
next
  case (Cons p ws)
  obtain n b where p: "p = (n, b)" by (cases p)
  show ?case
    unfolding p writeAll_simps Cons.IH
    by (simp add: AList.update_conv' map_add_upd_left fun_eq_iff map_add_def split: option.splits)
qed

lemma writeAll_fresh:
  "distinct (map fst ws) \<Longrightarrow> set (map fst ws) \<inter> set (map fst files) = {} \<Longrightarrow>
     writeAll files ws = files @ ws"
proof (induction ws arbitrary: files)
  case Nil
  then show ?case by (simp add: writeAll_simps)
next
  case (Cons p ws)
  obtain n b where p: "p = (n, b)" by (cases p)
  from Cons.prems have n: "n \<notin> set (map fst files)" "n \<notin> set (map fst ws)" "distinct (map fst ws)"
    "set (map fst ws) \<inter> set (map fst files) = {}"
    unfolding p by auto
  have upd: "AList.update n b files = files @ [(n, b)]"
    using n(1) by (induction files) auto
  have "writeAll (files @ [(n, b)]) ws = (files @ [(n, b)]) @ ws"
    using n by (intro Cons.IH) auto
  then show ?case unfolding p writeAll_simps upd by simp
qed

lemma writeAll_Nil_iff: "writeAll [] ws = [] \<longleftrightarrow> ws = []"
proof (cases ws)
  case Nil
  then show ?thesis by (simp add: writeAll_simps)
next
  case (Cons p ws')
  obtain n b where p: "p = (n, b)" by (cases p)
  have "n \<in> dom (map_of (writeAll [] ws))"
    unfolding map_of_writeAll Cons p by (auto simp: map_add_def dom_def split: option.splits)
  then have "writeAll [] ws \<noteq> []" by auto
  with Cons show ?thesis by simp
qed


lemma call_Inr: "call op s = (Inr a, s') \<Longrightarrow> fst (op (outside s)) = Inr a"
  by (auto simp: call_def split: prod.splits)

lemma pageLoop_writes:
  fixes env :: "'w Env" and s :: "'w World"
  assumes "pageLoop env it src i files s = (Inr files', s')" "i \<le> length src"
  shows "\<exists>bs. length bs = length src - i
     \<and> (\<forall>k < length bs. \<exists>w. fst (pdfSave env [src ! (i + k)] w) = Inr (bs ! k))
     \<and> files' = writeAll files (zip (map (pageName it) [i..<length src]) bs)"
  using assms
proof (induction env it src i files s rule: pageLoop.induct)
  case (1 env it src i files s)
  show ?case
  proof (cases "i < length src")
    case False
    with 1(2,3) have "files' = files" "i = length src"
      by (simp_all add: pageLoop.simps)
    then show ?thesis by (simp add: writeAll_simps)
  next
    case True
    from 1(2) True obtain b s1 where
      c: "call (pdfSave env [src ! i]) s = (Inr b, s1)"
      and rest: "pageLoop env it src (i + 1) (AList.update (pageName it i) b files) s1 = (Inr files', s')"
      by (subst (asm) pageLoop.simps) (auto split: prod.splits sum.splits)
    from True have le: "i + 1 \<le> length src" by simp
    from 1(1) [OF True c [symmetric] refl rest le]
    obtain bs where bs: "length bs = length src - (i + 1)"
      "\<forall>k < length bs. \<exists>w. fst (pdfSave env [src ! (i + 1 + k)] w) = Inr (bs ! k)"
      "files' = writeAll (AList.update (pageName it i) b files)
                  (zip (map (pageName it) [i + 1..<length src]) bs)"
      by blast
    have len: "length (b # bs) = length src - i" using bs(1) True by simp
    have each: "\<exists>w. fst (pdfSave env [src ! (i + k)] w) = Inr ((b # bs) ! k)" if "k < length (b # bs)" for k
    proof (cases k)
      case 0
      then show ?thesis using call_Inr [OF c] by auto
    next
      case (Suc k')
      with that bs(2) show ?thesis by simp
    qed
    have "[i..<length src] = i # [i + 1..<length src]"
      using True by (simp add: upt_conv_Cons)
    then have "files' = writeAll files (zip (map (pageName it) [i..<length src]) (b # bs))"
      using bs(3) by (simp add: writeAll_simps)
    with len each show ?thesis by blast
  qed
qed


lemma files1_writeAll:
  "(case outBlob it of
      Some blob \<Rightarrow> if status it = Done then AList.update (entryName it) (blobData blob) files else files
    | None \<Rightarrow> files) = writeAll files (outputEntry it)"
  by (simp add: outputEntry_def writeAll_simps split: option.splits)

lemma zipLoop_writes:
  fixes env :: "'w Env" and s :: "'w World"
  assumes "zipLoop env items files s = (Inr files', s')"
  shows "\<exists>W. length W = length items \<and> (\<forall>j < length items. contribution env (items ! j) (W ! j))
     \<and> files' = writeAll files (concat W)"
  using assms
proof (induction items arbitrary: files s)
  case Nil
  then show ?case by (simp add: writeAll_simps)
next
  case (Cons it rest)
  have extend: "\<exists>W. length W = length (it # rest) \<and> (\<forall>j < length (it # rest). contribution env ((it # rest) ! j) (W ! j))
     \<and> files' = writeAll files (concat W)"
    if c: "contribution env it ws" and r: "zipLoop env rest (writeAll files ws) s1 = (Inr files', s')" for ws s1
  proof -
    from Cons.IH [OF r] obtain W' where W': "length W' = length rest"
      "\<forall>j < length rest. contribution env (rest ! j) (W' ! j)"
      "files' = writeAll (writeAll files ws) (concat W')"
      by blast
    have "contribution env ((it # rest) ! j) ((ws # W') ! j)" if "j < length (it # rest)" for j
      using that c W'(2) by (cases j) simp_all
    then show ?thesis using W'(1,3) by (intro exI [of _ "ws # W'"]) (simp add: writeAll_simps)
  qed
  show ?case
  proof (cases "selected it")
    case False
    then have "contribution env it []" by (simp add: contribution_def)
    moreover have "zipLoop env rest (writeAll files []) s = (Inr files', s')"
      using Cons.prems False by (simp add: writeAll_simps)
    ultimately show ?thesis by (rule extend)
  next
    case True
    show ?thesis
    proof (cases "isPDF (itemFile it) \<and> pdfAction it = PdfSplit")
      case False
      with True have "contribution env it (outputEntry it)"
        by (simp add: contribution_def del: de_Morgan_conj)
      moreover have "zipLoop env rest (writeAll files (outputEntry it)) s = (Inr files', s')"
        using Cons.prems True False by (simp add: Let_def files1_writeAll del: de_Morgan_conj)
      ultimately show ?thesis by (rule extend)
    next
      case split: True
      let ?files1 = "writeAll files (outputEntry it)"
      from Cons.prems True split obtain src s1 files2 s2 where
        ld: "bindT (call (fileArrayBuffer env (itemFile it))) (\<lambda>buf. call (pdfLoad env buf)) s = (Inr src, s1)"
        and pg: "pageLoop env it src 0 ?files1 s1 = (Inr files2, s2)"
        and re: "zipLoop env rest files2 s2 = (Inr files', s')"
        by (auto simp: Let_def files1_writeAll split: prod.splits sum.splits)
      from ld obtain buf s0 where b: "call (fileArrayBuffer env (itemFile it)) s = (Inr buf, s0)"
        and l: "call (pdfLoad env buf) s0 = (Inr src, s1)"
        by (cases rule: bindT_cases) auto
      from pageLoop_writes [OF pg] obtain bs where bs: "length bs = length src"
        "\<forall>k < length bs. \<exists>w. fst (pdfSave env [src ! (0 + k)] w) = Inr (bs ! k)"
        "files2 = writeAll ?files1 (zip (map (pageName it) [0..<length src]) bs)"
        by auto
      have f2: "files2 = writeAll files (outputEntry it @ pageEntries it bs)"
        using bs(1,3) by (simp add: writeAll_simps pageEntries_def)
      have "contribution env it (outputEntry it @ pageEntries it bs)"
        unfolding contribution_def using True split call_Inr [OF b] call_Inr [OF l] bs(1,2)
        by auto
      moreover have "zipLoop env rest (writeAll files (outputEntry it @ pageEntries it bs)) s2 = (Inr files', s')"
        using re f2 by simp
      ultimately show ?thesis by (rule extend)
    qed
  qed
qed


lemma set_writeAll: "fst ` set (writeAll files ws) = fst ` set files \<union> fst ` set ws"
proof (induction ws arbitrary: files)
  case Nil
  then show ?case by (simp add: writeAll_simps)
next
  case (Cons p ws)
  obtain n b where p: "p = (n, b)" by (cases p)
  show ?case unfolding p writeAll_simps Cons.IH by (auto simp: AList.dom_update)
qed

lemma downloadZip_files:
  assumes "downloadZip env items s = (Inr r, s')"
  shows "\<exists>files. zipLoop env items [] s = (Inr files, s') \<and> r = (if files = [] then None else Some files)"
  using assms unfolding downloadZip_def
  by (cases rule: bindT_cases) (auto simp: returnT_def)

lemma demo_names:
  "entryName aPng = ''a.jpg''" "entryName aWebp = ''a.jpg''"
  "entryName photoDone = ''photo.jpg''" "entryName docDone = ''doc.pdf''"
  "entryName (docDone\<lparr>pdfAction := PdfSplit\<rparr>) = ''doc.pdf''"
  by code_simp+

lemma demo_pageNames:
  "pageName it 0 = replaceExt (fname (itemFile it)) ''-page-1.pdf''"
  "pageName it (Suc 0) = replaceExt (fname (itemFile it)) ''-page-2.pdf''"
  "pageName it (Suc (Suc 0)) = replaceExt (fname (itemFile it)) ''-page-3.pdf''"
  by (simp_all add: pageName_def numString_def digitsOf.simps digitChar_def)

lemma demo_doc_pages:
  "replaceExt (fname (mkFile ''doc.pdf'' ''application/pdf'')) ''-page-1.pdf'' = ''doc-page-1.pdf''"
  "replaceExt (fname (mkFile ''doc.pdf'' ''application/pdf'')) ''-page-2.pdf'' = ''doc-page-2.pdf''"
  "replaceExt (fname (mkFile ''doc.pdf'' ''application/pdf'')) ''-page-3.pdf'' = ''doc-page-3.pdf''"
  by code_simp+

lemma unit_world: "(s :: unit World)\<lparr>outside := ()\<rparr> = s"
  by (cases s) simp

lemma demo_pageLoop:
  "pageLoop demoEnv it src i files s =
     (Inr (writeAll files (map (\<lambda>k. (pageName it k, src ! k)) [i..<length src])), s)"
proof (induction demoEnv it src i files s rule: pageLoop.induct)
  case (1 it src i files s)
  show ?case
  proof (cases "i < length src")
    case False
    then show ?thesis by (subst pageLoop.simps) (simp add: writeAll_simps)
  next
    case True
    have c: "call (pdfSave demoEnv [src ! i]) s = (Inr (src ! i), s)"
      by (simp add: call_def demoEnv_ops unit_world)
    have u: "[i..<length src] = i # [i + 1..<length src]"
      using True by (simp add: upt_conv_Cons)
    have ih: "pageLoop demoEnv it src (Suc i) (AList.update (pageName it i) (src ! i) files) s =
        (Inr (writeAll (AList.update (pageName it i) (src ! i) files)
               (map (\<lambda>k. (pageName it k, src ! k)) [Suc i..<length src])), s)"
      using 1 [OF True c [symmetric] refl] by simp
    show ?thesis
      by (subst pageLoop.simps) (simp add: True c ih u writeAll_simps del: upt_Suc)
  qed
qed

lemma demo_doc_entries:
  assumes "itemFile it = mkFile ''doc.pdf'' ''application/pdf''"
  shows "map (\<lambda>k. (pageName it k, [[1], [2], [3]] ! k)) [0..<length [[1], [2], [3 :: nat]]] =
     [(''doc-page-1.pdf'', [1]), (''doc-page-2.pdf'', [2]), (''doc-page-3.pdf'', [3])]"
proof -
  have "[0..<length [[1], [2], [3 :: nat]]] = [0, 1, 2]" by (simp add: upt_rec)
  then show ?thesis by (simp add: demo_pageNames assms demo_doc_pages)
qed


lemma demo_doc_pageNames:
  assumes "itemFile it = mkFile ''doc.pdf'' ''application/pdf''"
  shows "pageName it 0 = ''doc-page-1.pdf''" "pageName it (Suc 0) = ''doc-page-2.pdf''"
    "pageName it (Suc (Suc 0)) = ''doc-page-3.pdf''"
  by (simp_all add: demo_pageNames assms demo_doc_pages)


lemma demo_isPDF:
  "isPDF (mkFile ''doc.pdf'' ''application/pdf'') = True"
  "isPDF (mkFile ''scan.pdf'' ''application/pdf'') = True"
  "isPDF (mkFile ''photo.png'' ''image/png'') = False"
  "isPDF (mkFile ''a.png'' ''image/png'') = False"
  "isPDF (mkFile ''a.webp'' ''image/webp'') = False"
  by code_simp+

lemma demo_load:
  "bindT (call (fileArrayBuffer demoEnv f)) (\<lambda>buf. call (pdfLoad demoEnv buf)) s = (Inr [[1], [2], [3]], s)"
  by (simp add: bindT_def call_def demoEnv_ops unit_world)

lemma demo_fields:
  "selected aPng" "selected aWebp" "selected photoDone" "selected docDone" "selected splitItem"
  "selected scanSplit" "selected staleSplit"
  "itemFile aPng = mkFile ''a.png'' ''image/png''" "itemFile aWebp = mkFile ''a.webp'' ''image/webp''"
  "itemFile photoDone = mkFile ''photo.png'' ''image/png''"
  "itemFile docDone = mkFile ''doc.pdf'' ''application/pdf''"
  "itemFile splitItem = mkFile ''doc.pdf'' ''application/pdf''"
  "itemFile scanSplit = mkFile ''scan.pdf'' ''application/pdf''"
  "itemFile staleSplit = mkFile ''doc.pdf'' ''application/pdf''"
  "pdfAction aPng = PdfNone" "pdfAction aWebp = PdfNone" "pdfAction photoDone = PdfNone"
  "pdfAction docDone = PdfNone" "pdfAction splitItem = PdfSplit" "pdfAction scanSplit = PdfSplit"
  "pdfAction staleSplit = PdfSplit"
  "status aPng = Done" "status aWebp = Done" "status photoDone = Done" "status docDone = Done"
  "status splitItem = Pending" "status scanSplit = Error" "status staleSplit = Done"
  "outBlob aPng = Some \<lparr>blobData = [1], blobType = ''image/jpeg''\<rparr>"
  "outBlob aWebp = Some \<lparr>blobData = [2], blobType = ''image/jpeg''\<rparr>"
  "outBlob photoDone = Some \<lparr>blobData = [8], blobType = ''image/jpeg''\<rparr>"
  "outBlob docDone = Some \<lparr>blobData = [1, 2, 3], blobType = ''application/pdf''\<rparr>"
  "outBlob splitItem = None" "outBlob scanSplit = None"
  "outBlob staleSplit = Some \<lparr>blobData = [1, 2, 3], blobType = ''application/pdf''\<rparr>"
  by (simp_all add: aPng_def aWebp_def photoDone_def docDone_def splitItem_def scanSplit_def staleSplit_def
      photoItem_def docItem_def newItem_def)

lemma demo_stale_name: "entryName staleSplit = ''doc.pdf''"
  using demo_names(5) by (simp add: staleSplit_def)

lemma demo_zip_collision:
  "downloadZip demoEnv [aPng, aWebp] demoWorld = (Inr (Some [(''a.jpg'', [2])]), demoWorld)"
  by (simp add: downloadZip_def bindT_def returnT_def demo_fields demo_isPDF demo_names)

lemma demo_zip_two:
  "downloadZip demoEnv [photoDone, docDone] demoWorld =
     (Inr (Some [(''photo.jpg'', [8]), (''doc.pdf'', [1, 2, 3])]), demoWorld)"
  by (simp add: downloadZip_def bindT_def returnT_def demo_fields demo_isPDF demo_names)

lemma demo_zip_stale:
  "downloadZip demoEnv [staleSplit] demoWorld =
     (Inr (Some [(''doc.pdf'', [1, 2, 3]), (''doc-page-1.pdf'', [1]), (''doc-page-2.pdf'', [2]),
                 (''doc-page-3.pdf'', [3])]), demoWorld)"
  by (simp add: downloadZip_def bindT_def [of "zipLoop demoEnv [staleSplit] []"] returnT_def demo_fields
      demo_isPDF demo_stale_name
      demo_load demo_pageLoop demo_doc_pageNames writeAll_simps)

lemma demo_zip_split:
  "downloadZip demoEnv [photoDone, splitItem\<lparr>status := Done\<rparr>] demoWorld =
     (Inr (Some [(''photo.jpg'', [8]), (''doc-page-1.pdf'', [1]), (''doc-page-2.pdf'', [2]),
                 (''doc-page-3.pdf'', [3])]), demoWorld)"
  by (simp add: downloadZip_def bindT_def [of "zipLoop demoEnv [photoDone, splitItem\<lparr>status := Done\<rparr>] []"]
      returnT_def demo_fields demo_isPDF demo_names
      demo_load demo_pageLoop demo_doc_pageNames writeAll_simps)


lemma zip_map_upt:
  "length bs = n \<Longrightarrow> zip (map f [0..<n]) bs = map (\<lambda>i. (f i, bs ! i)) [0..<n]"
  by (rule nth_equalityI) auto

lemma demo_split_bodies:
  "convertBody demoEnv (splitItem\<lparr>status := st\<rparr>) tgt s = (Inr (tgt\<lparr>status := Done\<rparr>), s)"
  "convertBody demoEnv (staleSplit\<lparr>status := st\<rparr>) tgt s = (Inr (tgt\<lparr>status := Done\<rparr>), s)"
  by (simp_all add: convertBody_def demo_fields demo_isPDF returnT_def)

lemma demo_single_selected:
  "selectedPositions [docItem] = [0]" "selectedPositions [splitItem] = [0]"
  "selectedPositions [staleSplit] = [0]"
  by (simp_all add: selectedPositions_def demo_fields docItem_def newItem_def)

lemma demo_single_runs:
  "fst (convertAll demoEnv [docItem] demoWorld) = Inr [docDone]"
  "fst (convertAll demoEnv [splitItem] demoWorld) = Inr [splitItem\<lparr>status := Done\<rparr>]"
  "fst (convertAll demoEnv [staleSplit] demoWorld) = Inr [staleSplit]"
proof -
  have "fst (convertAll demoEnv [docItem] demoWorld) =
      Inr [docItem\<lparr>status := Done, outBlob := Some \<lparr>blobData = [1, 2, 3], blobType = ''application/pdf''\<rparr>\<rparr>]"
    by (simp add: convertAll_def demo_single_selected Let_def demo_bodies settle_def)
  then show "fst (convertAll demoEnv [docItem] demoWorld) = Inr [docDone]"
    by (simp add: docDone_def)
  show "fst (convertAll demoEnv [splitItem] demoWorld) = Inr [splitItem\<lparr>status := Done\<rparr>]"
    by (simp add: convertAll_def demo_single_selected Let_def demo_split_bodies settle_def)
  have "fst (convertAll demoEnv [staleSplit] demoWorld) = Inr [staleSplit\<lparr>status := Done\<rparr>]"
    by (simp add: convertAll_def demo_single_selected Let_def demo_split_bodies settle_def)
  moreover have "staleSplit\<lparr>status := Done\<rparr> = staleSplit" by (simp add: staleSplit_def docDone_def)
  ultimately show "fst (convertAll demoEnv [staleSplit] demoWorld) = Inr [staleSplit]" by simp
qed

text \<open>
  C5, as the claim states it, fails: the images \<open>a.png\<close> and \<open>a.webp\<close>, both converted to
  JPEG, both get the entry name \<open>a.jpg\<close>, and the archive holds one entry, the output of
  the second.
\<close>

theorem downloadZip_name_collision_counterexample:
  "itemId aPng \<noteq> itemId aWebp \<and> selected aPng \<and> selected aWebp
   \<and> outputEntry aPng = [(''a.jpg'', [1])] \<and> outputEntry aWebp = [(''a.jpg'', [2])]
   \<and> downloadZip demoEnv [aPng, aWebp] demoWorld = (Inr (Some [(''a.jpg'', [2])]), demoWorld)"
  by (simp add: demo_zip_collision outputEntry_def demo_fields demo_names)
    (simp add: aPng_def aWebp_def newItem_def)

text \<open>
  C5, amended. The assembler writes, item by item in the order of the queue, the entries
  of each selected item (its converted output, then its pages when it is a document to
  split) to one dictionary. The archive holds exactly the names written; under each name
  it holds the bytes written last. When the names written are all different, the archive
  is the list of all entries written, in order: every output appears.
\<close>

theorem downloadZip_last_write_wins:
  fixes env :: "'w Env" and s :: "'w World"
  assumes run: "downloadZip env items s = (Inr r, s')"
  shows "\<exists>W. length W = length items \<and> (\<forall>j < length items. contribution env (items ! j) (W ! j))
     \<and> r = (if concat W = [] then None else Some (writeAll [] (concat W)))
     \<and> fst ` set (writeAll [] (concat W)) = fst ` set (concat W)
     \<and> map_of (writeAll [] (concat W)) = map_of (rev (concat W))
     \<and> (distinct (map fst (concat W)) \<longrightarrow> writeAll [] (concat W) = concat W)"
proof -
  from downloadZip_files [OF run] obtain files where
    z: "zipLoop env items [] s = (Inr files, s')" and r: "r = (if files = [] then None else Some files)"
    by blast
  from zipLoop_writes [OF z] obtain W where W: "length W = length items"
    "\<forall>j < length items. contribution env (items ! j) (W ! j)" "files = writeAll [] (concat W)"
    by blast
  have "r = (if concat W = [] then None else Some (writeAll [] (concat W)))"
    using r W(3) by (simp add: writeAll_Nil_iff)
  moreover have "fst ` set (writeAll [] (concat W)) = fst ` set (concat W)"
    by (simp add: set_writeAll)
  moreover have "map_of (writeAll [] (concat W)) = map_of (rev (concat W))"
    by (simp add: map_of_writeAll)
  moreover have "distinct (map fst (concat W)) \<longrightarrow> writeAll [] (concat W) = concat W"
    using writeAll_fresh [of "concat W" "[]"] by simp
  ultimately show ?thesis using W(1,2) by blast
qed

theorem downloadZip_last_write_wins_witness:
  "downloadZip demoEnv [photoDone, docDone] demoWorld =
     (Inr (Some [(''photo.jpg'', [8]), (''doc.pdf'', [1, 2, 3])]), demoWorld)
   \<and> (\<exists>W. length W = 2 \<and> W ! 0 = [(''photo.jpg'', [8])] \<and> W ! 1 = [(''doc.pdf'', [1, 2, 3])]
        \<and> Some [(''photo.jpg'', [8]), (''doc.pdf'', [1, 2, 3])] = Some (writeAll [] (concat W))
        \<and> map_of (writeAll [] (concat W)) = map_of (rev (concat W)))"
proof -
  from downloadZip_last_write_wins [OF demo_zip_two]
  obtain W where W: "length W = length [photoDone, docDone]"
    "\<forall>j < length [photoDone, docDone]. contribution demoEnv ([photoDone, docDone] ! j) (W ! j)"
    "Some [(''photo.jpg'', [8]), (''doc.pdf'', [1, 2, 3])] =
       (if concat W = [] then None else Some (writeAll [] (concat W)))"
    "map_of (writeAll [] (concat W)) = map_of (rev (concat W))"
    by blast
  from W(2) [rule_format, of 0] W(2) [rule_format, of 1]
  have "contribution demoEnv photoDone (W ! 0)" "contribution demoEnv docDone (W ! 1)"
    by simp_all
  then have w: "W ! 0 = [(''photo.jpg'', [8])]" "W ! 1 = [(''doc.pdf'', [1, 2, 3])]"
    by (simp_all add: contribution_def demo_fields demo_isPDF outputEntry_def demo_names)
  from W(3) have "concat W \<noteq> []" by (auto split: if_splits)
  with W(3) have eq: "Some [(''photo.jpg'', [8]), (''doc.pdf'', [1, 2, 3])] = Some (writeAll [] (concat W))"
    by simp
  have len: "length W = 2" using W(1) by simp
  have "\<exists>W. length W = 2 \<and> W ! 0 = [(''photo.jpg'', [8])] \<and> W ! 1 = [(''doc.pdf'', [1, 2, 3])]
        \<and> Some [(''photo.jpg'', [8]), (''doc.pdf'', [1, 2, 3])] = Some (writeAll [] (concat W))
        \<and> map_of (writeAll [] (concat W)) = map_of (rev (concat W))"
  proof (rule exI [of _ W], intro conjI)
    show "length W = 2" by (rule len)
    show "W ! 0 = [(''photo.jpg'', [8])]" by (rule w(1))
    show "W ! 1 = [(''doc.pdf'', [1, 2, 3])]" by (rule w(2))
    show "Some [(''photo.jpg'', [8]), (''doc.pdf'', [1, 2, 3])] = Some (writeAll [] (concat W))" by (rule eq)
    show "map_of (writeAll [] (concat W)) = map_of (rev (concat W))" by (rule W(4))
  qed
  with demo_zip_two show ?thesis by (rule conjI)
qed

text \<open>
  C7, as the claim states it, fails. The document \<open>doc.pdf\<close> was converted with the action
  keep, which stored its bytes as output; then split was chosen. A further run leaves the
  stored output in place, and the archive holds the whole document beside its three pages.
\<close>

theorem downloadZip_split_keeps_output_counterexample:
  "fst (convertAll demoEnv [docItem] demoWorld) = Inr [docDone]
   \<and> staleSplit = docDone\<lparr>pdfAction := PdfSplit\<rparr>
   \<and> fst (convertAll demoEnv [staleSplit] demoWorld) = Inr [staleSplit]
   \<and> selected staleSplit \<and> isPDF (itemFile staleSplit) \<and> pdfAction staleSplit = PdfSplit
   \<and> downloadZip demoEnv [staleSplit] demoWorld =
       (Inr (Some [(''doc.pdf'', [1, 2, 3]), (''doc-page-1.pdf'', [1]), (''doc-page-2.pdf'', [2]),
                   (''doc-page-3.pdf'', [3])]), demoWorld)"
  by (simp add: demo_single_runs demo_zip_stale demo_fields demo_isPDF) (simp add: staleSplit_def)

text \<open>
  C7, amended. For a selected document with the split action, the assembler loads the
  document from the bytes of the file and writes one entry per page, in page order, named
  by replacing the extension of the file name with \<open>-page-1.pdf\<close> to \<open>-page-P.pdf\<close>, each
  holding the saved single-page document. Before them it writes the whole-document entry
  exactly when the item has status done and a stored output. A conversion with the split
  action only sets the status to done and stores no output, so an item never converted
  with another action contributes its pages only.
\<close>

theorem split_document_entries:
  fixes env :: "'w Env" and s :: "'w World"
  assumes run: "downloadZip env items s = (Inr r, s')"
    and j: "j < length items" "selected (items ! j)" "isPDF (itemFile (items ! j))"
      "pdfAction (items ! j) = PdfSplit"
  shows "\<exists>W buf src bs w1 w2.
       length W = length items
     \<and> (\<forall>i < length items. contribution env (items ! i) (W ! i))
     \<and> r = (if concat W = [] then None else Some (writeAll [] (concat W)))
     \<and> fst (fileArrayBuffer env (itemFile (items ! j)) w1) = Inr buf
     \<and> fst (pdfLoad env buf w2) = Inr src
     \<and> length bs = length src
     \<and> (\<forall>i < length src. \<exists>w. fst (pdfSave env [src ! i] w) = Inr (bs ! i))
     \<and> W ! j =
         (case outBlob (items ! j) of
            Some blob \<Rightarrow> if status (items ! j) = Done then [(entryName (items ! j), blobData blob)] else []
          | None \<Rightarrow> [])
         @ map (\<lambda>i. (replaceExt (fname (itemFile (items ! j)))
                        (''-page-'' @ numString (int i + 1) @ ''.pdf''), bs ! i))
             [0..<length src]
     \<and> (\<forall>tgt s0. convertBody env (items ! j) tgt s0 = (Inr (tgt\<lparr>status := Done\<rparr>), s0))"
proof -
  from downloadZip_files [OF run] obtain files where
    z: "zipLoop env items [] s = (Inr files, s')" and r: "r = (if files = [] then None else Some files)"
    by blast
  from zipLoop_writes [OF z] obtain W where W: "length W = length items"
    "\<forall>j < length items. contribution env (items ! j) (W ! j)" "files = writeAll [] (concat W)"
    by blast
  have r': "r = (if concat W = [] then None else Some (writeAll [] (concat W)))"
    using r W(3) by (simp add: writeAll_Nil_iff)
  from W(2) j(1) have "contribution env (items ! j) (W ! j)" by blast
  then have "\<exists>buf src bs w1 w2.
      fst (fileArrayBuffer env (itemFile (items ! j)) w1) = Inr buf
      \<and> fst (pdfLoad env buf w2) = Inr src \<and> length bs = length src
      \<and> (\<forall>i < length src. \<exists>w. fst (pdfSave env [src ! i] w) = Inr (bs ! i))
      \<and> W ! j = outputEntry (items ! j) @ pageEntries (items ! j) bs"
    using j(2,3,4) by (simp add: contribution_def)
  then obtain buf src bs w1 w2 where
    c: "fst (fileArrayBuffer env (itemFile (items ! j)) w1) = Inr buf"
      "fst (pdfLoad env buf w2) = Inr src" "length bs = length src"
      "\<forall>i < length src. \<exists>w. fst (pdfSave env [src ! i] w) = Inr (bs ! i)"
      "W ! j = outputEntry (items ! j) @ pageEntries (items ! j) bs"
    by blast
  have pages: "pageEntries (items ! j) bs =
      map (\<lambda>i. (replaceExt (fname (itemFile (items ! j)))
                   (''-page-'' @ numString (int i + 1) @ ''.pdf''), bs ! i)) [0..<length src]"
    unfolding pageEntries_def c(3) using zip_map_upt [OF c(3), of "pageName (items ! j)"]
    by (simp add: pageName_def)
  have wj: "W ! j =
         (case outBlob (items ! j) of
            Some blob \<Rightarrow> if status (items ! j) = Done then [(entryName (items ! j), blobData blob)] else []
          | None \<Rightarrow> [])
         @ map (\<lambda>i. (replaceExt (fname (itemFile (items ! j)))
                        (''-page-'' @ numString (int i + 1) @ ''.pdf''), bs ! i))
             [0..<length src]"
    unfolding c(5) pages by (simp add: outputEntry_def)
  have body: "\<forall>tgt s0. convertBody env (items ! j) tgt s0 = (Inr (tgt\<lparr>status := Done\<rparr>), s0)"
    using j(3,4) by (simp add: convertBody_def returnT_def)
  show ?thesis
    apply (rule exI [of _ W], rule exI [of _ buf], rule exI [of _ src], rule exI [of _ bs],
        rule exI [of _ w1], rule exI [of _ w2])
    apply (intro conjI)
            apply (rule W(1))
           apply (rule W(2))
          apply (rule r')
         apply (rule c(1))
        apply (rule c(2))
       apply (rule c(3))
      apply (rule c(4))
     apply (rule wj)
    apply (rule body)
    done
qed

theorem split_document_entries_witness:
  "fst (convertAll demoEnv [splitItem] demoWorld) = Inr [splitItem\<lparr>status := Done\<rparr>]
   \<and> downloadZip demoEnv [photoDone, splitItem\<lparr>status := Done\<rparr>] demoWorld =
       (Inr (Some [(''photo.jpg'', [8]), (''doc-page-1.pdf'', [1]), (''doc-page-2.pdf'', [2]),
                   (''doc-page-3.pdf'', [3])]), demoWorld)
   \<and> (\<exists>(W :: (string \<times> bytes) list list) bs. length W = 2 \<and> length bs = 3
        \<and> W ! 1 = [(''doc-page-1.pdf'', bs ! 0), (''doc-page-2.pdf'', bs ! 1), (''doc-page-3.pdf'', bs ! 2)])"
proof -
  let ?items = "[photoDone, splitItem\<lparr>status := Done\<rparr>]"
  have j: "1 < length ?items" "selected (?items ! 1)" "isPDF (itemFile (?items ! 1))"
    "pdfAction (?items ! 1) = PdfSplit"
    by (simp_all add: demo_fields demo_isPDF)
  from split_document_entries [OF demo_zip_split j]
  obtain W buf src bs w1 w2 where
    W: "length W = length ?items"
    and src: "fst (pdfLoad demoEnv buf w2) = Inr src"
    and bs: "length bs = length src"
    and wj: "W ! 1 =
         (case outBlob (?items ! 1) of
            Some blob \<Rightarrow> if status (?items ! 1) = Done then [(entryName (?items ! 1), blobData blob)] else []
          | None \<Rightarrow> [])
         @ map (\<lambda>i. (replaceExt (fname (itemFile (?items ! 1)))
                        (''-page-'' @ numString (int i + 1) @ ''.pdf''), bs ! i))
             [0..<length src]"
    by blast
  from src have s3: "src = [[1], [2], [3]]" by (simp add: demoEnv_ops)
  have up: "[0..<length [[1], [2], [3 :: nat]]] = [0, 1, 2]" by (simp add: upt_rec)
  have names: "replaceExt ''doc.pdf'' (''-page-'' @ numString (int 0 + 1) @ ''.pdf'') = ''doc-page-1.pdf''"
    "replaceExt ''doc.pdf'' (''-page-'' @ numString (int 1 + 1) @ ''.pdf'') = ''doc-page-2.pdf''"
    "replaceExt ''doc.pdf'' (''-page-'' @ numString (int 2 + 1) @ ''.pdf'') = ''doc-page-3.pdf''"
    by code_simp+
  have w1: "W ! 1 = [(''doc-page-1.pdf'', bs ! 0), (''doc-page-2.pdf'', bs ! 1), (''doc-page-3.pdf'', bs ! 2)]"
    unfolding wj s3 up using names by (simp add: demo_fields mkFile_def)
  have len: "length W = 2" "length bs = 3" using W bs s3 by simp_all
  have "\<exists>(W :: (string \<times> bytes) list list) bs. length W = 2 \<and> length bs = 3
        \<and> W ! 1 = [(''doc-page-1.pdf'', bs ! 0), (''doc-page-2.pdf'', bs ! 1), (''doc-page-3.pdf'', bs ! 2)]"
  proof (rule exI [of _ W], rule exI [of _ bs], intro conjI)
    show "length W = 2" by (rule len(1))
    show "length bs = 3" by (rule len(2))
    show "W ! 1 = [(''doc-page-1.pdf'', bs ! 0), (''doc-page-2.pdf'', bs ! 1), (''doc-page-3.pdf'', bs ! 2)]"
      by (rule w1)
  qed
  with demo_single_runs(2) demo_zip_split show ?thesis by (intro conjI)
qed



end
